theory Spec2Isabelle
  imports Main "HOL-Library.Multiset"
begin

section \<open>The tree view of Open3D: item store, selection and notification\<close>

text \<open>
  This theory embeds \<^verbatim>\<open>cpp/open3d/visualization/gui/TreeView.cpp\<close>.

  \<^item> \<^verbatim>\<open>TreeView::ItemId\<close> is declared in \<^verbatim>\<open>TreeView.h\<close>, which is not among the sources
    embedded here; the code compares it with \<^verbatim>\<open>0\<close> and initialises it with \<^verbatim>\<open>-1\<close>. It
    is taken as the type \<^verbatim>\<open>int\<close> of C++ with 32 bits. An identifier is an \<open>int\<close> of HOL
    between \<open>- 2147483648\<close> and \<open>2147483647\<close>, and the increment of the counter
    \<^verbatim>\<open>g_next_id\<close>, the only arithmetic on identifiers, is written out with its
    wrap-around (\<open>next_id\<close> below).
  \<^item> An \<^verbatim>\<open>Item\<close> owns its children by value (\<^verbatim>\<open>std::list<Item>\<close>), so an item is a
    tree-shaped datatype. A pointer \<^verbatim>\<open>Item*\<close> is the address of the object it points
    to: every item carries the address at which it was allocated, reading through
    a pointer is a search for that address in the tree owned by \<^verbatim>\<open>root_\<close>, and a
    pointer whose address is not in the tree is dangling.
  \<^item> C++ member names end in an underscore, which Isabelle does not accept in a
    name: \<^verbatim>\<open>root_\<close>, \<^verbatim>\<open>id2item_\<close>, \<^verbatim>\<open>selected_id_\<close> and \<^verbatim>\<open>on_value_changed_\<close> lose it;
    the fields \<^verbatim>\<open>id\<close> and \<^verbatim>\<open>text\<close> are \<open>item_id\<close> and \<open>item_text\<close>, and the parameter
    \<^verbatim>\<open>text\<close> of \<^verbatim>\<open>AddItem\<close> is \<open>txt\<close>.
\<close>

subsection \<open>Data\<close>

type_synonym ItemId = int
type_synonym ptr = nat

datatype Item =
  Item (item_addr: ptr) (item_id: ItemId) (item_text: string) (parent: "ptr option")
       (children: "Item list")

record Impl =
  root :: Item
  id2item :: "ItemId \<rightharpoonup> ptr"
  selected_id :: ItemId
  on_value_changed :: bool

text \<open>
  The field \<open>on_value_changed\<close> says whether a callable is stored in the
  \<^verbatim>\<open>std::function\<close>; calling it is an event of the trace of \<open>Draw\<close> below.

  The state of the process: the static counter \<^verbatim>\<open>Impl::g_next_id\<close>, shared by all
  tree views, and the allocator, which hands out addresses that were never used.
\<close>

record process =
  g_next_id :: ItemId
  heap_next :: ptr

text \<open>
  What can go wrong in the model: reading or writing through a pointer whose item
  is no longer in the tree (undefined in C++), the fuel of \<open>RemoveItem\<close> running
  out, and a call on a tree view that was never constructed.
\<close>

datatype error = DanglingPointer | OutOfFuel | NoSuchView

subsection \<open>The counter\<close>

text \<open>
  Modelled from the spec: the declaration of \<^verbatim>\<open>TreeView::ItemId\<close> (in \<^verbatim>\<open>TreeView.h\<close>) is
  missing. The specification calls an identifier an integer-like handle, taken
  from a process-wide counter, with the reserved value \<^verbatim>\<open>-1\<close>: a signed integer of
  fixed width, here the 32 bits of \<^verbatim>\<open>int\<close>. \<open>next_id\<close> is \<^verbatim>\<open>g_next_id++\<close> on this type.
  Incrementing the largest value, \<open>2147483647\<close>, is undefined in C++; the increment
  instruction of the machine yields \<open>- 2147483648\<close>, and so does the model.
\<close>

definition next_id :: "ItemId \<Rightarrow> ItemId" where
  "next_id i = (if i = 2147483647 then - 2147483648 else i + 1)"

subsection \<open>Reading and writing through a pointer\<close>

fun items :: "Item \<Rightarrow> Item list" where
  "items (Item a i t p cs) = Item a i t p cs # concat (map items cs)"

fun find_item :: "ptr \<Rightarrow> Item \<Rightarrow> Item option"
  and find_items :: "ptr \<Rightarrow> Item list \<Rightarrow> Item option" where
  "find_item q (Item a i t p cs) =
     (if a = q then Some (Item a i t p cs) else find_items q cs)"
| "find_items q [] = None"
| "find_items q (c # cs) =
     (case find_item q c of Some x \<Rightarrow> Some x | None \<Rightarrow> find_items q cs)"

fun modify_item :: "ptr \<Rightarrow> (Item list \<Rightarrow> Item list) \<Rightarrow> Item \<Rightarrow> Item" where
  "modify_item q f (Item a i t p cs) =
     (if a = q then Item a i t p (f cs) else Item a i t p (map (modify_item q f) cs))"

text \<open>
  \<open>modify_item q f\<close> is a write to the \<^verbatim>\<open>children\<close> list of the item at address
  \<open>q\<close>, the only field the code ever writes after an item is created.
\<close>

subsection \<open>Printing an identifier\<close>

text \<open>
  \<^verbatim>\<open>s << item.id\<close> on a \<^verbatim>\<open>std::stringstream\<close> in the default locale: the decimal
  digits, after a minus sign when the number is negative.
\<close>

definition digit :: "nat \<Rightarrow> char" where
  "digit d = ''0123456789'' ! d"

fun dec_nat :: "nat \<Rightarrow> string" where
  "dec_nat n = (if n < 10 then [digit n] else dec_nat (n div 10) @ [digit (n mod 10)])"

declare dec_nat.simps [simp del]

definition show_id :: "ItemId \<Rightarrow> string" where
  "show_id i = (if i < 0 then CHR ''-'' # dec_nat (nat (- i)) else dec_nat (nat i))"

subsection \<open>Construction and the item store\<close>

text \<open>
  \<^verbatim>\<open>TreeView::TreeView()\<close>: a new \<^verbatim>\<open>Impl\<close>, whose root takes the next identifier and
  is entered in the lookup table. The other members keep their initialisers.
\<close>

definition TreeView_new :: "process \<Rightarrow> process \<times> Impl" where
  "TreeView_new g =
     (let a = heap_next g;
          i = g_next_id g
      in (g\<lparr>g_next_id := next_id i, heap_next := a + 1\<rparr>,
          \<lparr>root = Item a i [] None [], id2item = [i \<mapsto> a], selected_id = - 1,
           on_value_changed = False\<rparr>))"

definition GetRootItem :: "Impl \<Rightarrow> ItemId" where
  "GetRootItem s = item_id (root s)"

text \<open>
  \<^verbatim>\<open>TreeView::AddItem\<close>. The new item is copied to the end of the parent's list, in
  a list node of its own, and the table receives the address of that node.
  Writing through \<open>parent\<close> is undefined when the pointer is dangling.
\<close>

definition AddItem ::
  "process \<Rightarrow> Impl \<Rightarrow> ItemId \<Rightarrow> string \<Rightarrow> error + (process \<times> Impl \<times> ItemId)" where
  "AddItem g s parent_id txt =
     (let new_id = g_next_id g;
          g1 = g\<lparr>g_next_id := next_id new_id\<rparr>;
          new_text = txt @ ''##'' @ show_id new_id;
          par = (case id2item s parent_id of
                   None \<Rightarrow> item_addr (root s)
                 | Some p \<Rightarrow> p)
      in case find_item par (root s) of
           None \<Rightarrow> Inl DanglingPointer
         | Some _ \<Rightarrow>
             (let a = heap_next g1;
                  item = Item a new_id new_text (Some par) []
              in Inr (g1\<lparr>heap_next := a + 1\<rparr>,
                      s\<lparr>root := modify_item par (\<lambda>cs. cs @ [item]) (root s),
                        id2item := (id2item s)(new_id \<mapsto> a)\<rparr>,
                      new_id)))"

text \<open>
  \<^verbatim>\<open>TreeView::RemoveItem\<close>. The loop over the siblings erases the first one whose
  identifier is \<open>item_id\<close> and stops.
\<close>

fun erase_id :: "ItemId \<Rightarrow> Item list \<Rightarrow> Item list" where
  "erase_id i [] = []"
| "erase_id i (c # cs) = (if item_id c = i then cs else c # erase_id i cs)"

definition unlink :: "Impl \<Rightarrow> ptr \<Rightarrow> ItemId \<Rightarrow> error + Impl" where
  "unlink s item i =
     (case find_item item (root s) of
        None \<Rightarrow> Inl DanglingPointer
      | Some it \<Rightarrow>
          (case parent it of
             None \<Rightarrow> Inr s
           | Some q \<Rightarrow>
               (case find_item q (root s) of
                  None \<Rightarrow> Inl DanglingPointer
                | Some _ \<Rightarrow> Inr (s\<lparr>root := modify_item q (erase_id i) (root s)\<rparr>))))"

text \<open>
  The function calls itself inside a \<^verbatim>\<open>while\<close> loop whose condition is read
  through the pointer \<open>item\<close>; nothing in the code bounds the recursion, so the
  model counts calls and loop iterations with fuel. \<open>RemoveItem_loop\<close> is the
  \<^verbatim>\<open>while\<close> loop.
\<close>

fun RemoveItem_fuel :: "nat \<Rightarrow> Impl \<Rightarrow> ItemId \<Rightarrow> error + Impl"
  and RemoveItem_loop :: "nat \<Rightarrow> Impl \<Rightarrow> ptr \<Rightarrow> error + Impl" where
  "RemoveItem_fuel 0 s i = Inl OutOfFuel"
| "RemoveItem_fuel (Suc n) s i =
     (case id2item s i of
        None \<Rightarrow> Inr s
      | Some item \<Rightarrow>
          (case RemoveItem_loop n (s\<lparr>id2item := (id2item s)(i := None)\<rparr>) item of
             Inl e \<Rightarrow> Inl e
           | Inr s' \<Rightarrow> unlink s' item i))"
| "RemoveItem_loop 0 s item = Inl OutOfFuel"
| "RemoveItem_loop (Suc n) s item =
     (case find_item item (root s) of
        None \<Rightarrow> Inl DanglingPointer
      | Some it \<Rightarrow>
          (case children it of
             [] \<Rightarrow> Inr s
           | c # _ \<Rightarrow>
               (case RemoveItem_fuel n s (item_id c) of
                  Inl e \<Rightarrow> Inl e
                | Inr s' \<Rightarrow> RemoveItem_loop n s' item)))"

text \<open>
  The call of the public method, with fuel for twice the items of the tree. On the
  states a process can reach this is enough (\<open>RemoveItem_total\<close> below), and
  more fuel never changes a result (\<open>RemoveItem_fuel_mono\<close>).
\<close>

definition RemoveItem :: "Impl \<Rightarrow> ItemId \<Rightarrow> error + Impl" where
  "RemoveItem s i = RemoveItem_fuel (2 * length (items (root s))) s i"

text \<open>\<^verbatim>\<open>TreeView::GetItemChildren\<close>: the identifiers of the children of the parent of
  the item found.\<close>

definition GetItemChildren :: "Impl \<Rightarrow> ItemId \<Rightarrow> error + ItemId list" where
  "GetItemChildren s parent_id =
     (case id2item s parent_id of
        None \<Rightarrow> Inr []
      | Some item \<Rightarrow>
          (case find_item item (root s) of
             None \<Rightarrow> Inl DanglingPointer
           | Some it \<Rightarrow>
               (case parent it of
                  None \<Rightarrow> Inr []
                | Some q \<Rightarrow>
                    (case find_item q (root s) of
                       None \<Rightarrow> Inl DanglingPointer
                     | Some p \<Rightarrow> Inr (map item_id (children p))))))"

subsection \<open>Selection\<close>

definition GetSelectedItemId :: "Impl \<Rightarrow> ItemId" where
  "GetSelectedItemId s = (if selected_id s < 0 then item_id (root s) else selected_id s)"

definition SetSelectedItemId :: "Impl \<Rightarrow> ItemId \<Rightarrow> Impl" where
  "SetSelectedItemId s i = s\<lparr>selected_id := i\<rparr>"

definition SetOnValueChanged :: "Impl \<Rightarrow> bool \<Rightarrow> Impl" where
  "SetOnValueChanged s f = s\<lparr>on_value_changed := f\<rparr>"

subsection \<open>Drawing a frame\<close>

text \<open>
  \<^verbatim>\<open>TreeView::Draw\<close> calls ImGui once per item it visits. What ImGui answers is an
  input of the pass: \<open>TreeNodeEx\<close> (is the node open?) is asked with the item's
  text and whether the leaf flag is set, \<open>IsItemClicked\<close> is asked about the item
  just submitted, which ImGui identifies by its text.

  The effects of a pass, in the order in which they happen: the rectangle drawn
  behind the selected item, the call of \<^verbatim>\<open>ImGui::TreeNodeEx\<close>, the call of the
  listener. The frame and the style calls do not depend on the items and are left
  out.
\<close>

record imgui =
  TreeNodeEx :: "string \<Rightarrow> bool \<Rightarrow> bool"
  IsItemClicked :: "string \<Rightarrow> bool"

datatype event = Highlight ItemId | TreeNode string bool | Notify string ItemId

datatype DrawResult = NONE | REDRAW

text \<open>
  The state of the walk: \<^verbatim>\<open>impl_\<close>, the local \<^verbatim>\<open>new_selection\<close> and the effects so
  far. \<^verbatim>\<open>new_selection\<close> points to an item of the tree, which the walk does not
  modify; the model keeps the item pointed to.

  \<open>activate\<close> is the statement
  \<^verbatim>\<open>if (ImGui::IsItemClicked() && item.children.empty()) { ... }\<close>, which the code has
  in both branches of the test of \<^verbatim>\<open>TreeNodeEx\<close>.
\<close>

type_synonym walk = "Impl \<times> Item option \<times> event list"

definition activate :: "imgui \<Rightarrow> Item \<Rightarrow> walk \<Rightarrow> walk" where
  "activate ui item w =
     (case w of (s, new_selection, tr) \<Rightarrow>
        if IsItemClicked ui (item_text item) \<and> children item = []
        then (s\<lparr>selected_id := item_id item\<rparr>, Some item, tr)
        else (s, new_selection, tr))"

definition highlight :: "Item \<Rightarrow> walk \<Rightarrow> walk" where
  "highlight item w =
     (case w of (s, new_selection, tr) \<Rightarrow>
        if item_id item = selected_id s
        then (s, new_selection, tr @ [Highlight (item_id item)])
        else (s, new_selection, tr))"

definition tree_node :: "Item \<Rightarrow> walk \<Rightarrow> walk" where
  "tree_node item w =
     (case w of (s, new_selection, tr) \<Rightarrow>
        (s, new_selection, tr @ [TreeNode (item_text item) (children item = [])]))"

fun DrawItem :: "imgui \<Rightarrow> Item \<Rightarrow> walk \<Rightarrow> walk"
  and DrawItems :: "imgui \<Rightarrow> Item list \<Rightarrow> walk \<Rightarrow> walk" where
  "DrawItem ui (Item a i t p cs) w =
     (let item = Item a i t p cs;
          w1 = tree_node item (highlight item w)
      in if TreeNodeEx ui t (cs = [])
         then DrawItems ui cs (activate ui item w1)
         else activate ui item w1)"
| "DrawItems ui [] w = w"
| "DrawItems ui (c # cs) w = DrawItems ui cs (DrawItem ui c w)"

text \<open>
  The listener runs last. What it does to the tree view it does through the
  public methods, after everything \<open>Draw\<close> does to the state.
\<close>

definition Draw :: "imgui \<Rightarrow> Impl \<Rightarrow> Impl \<times> DrawResult \<times> event list" where
  "Draw ui s =
     (case DrawItems ui (children (root s)) (s, None, []) of
        (s', new_selection, tr) \<Rightarrow>
          (case new_selection of
             None \<Rightarrow> (s', NONE, tr)
           | Some it \<Rightarrow>
               (s', REDRAW,
                if on_value_changed s' then tr @ [Notify (item_text it) (item_id it)]
                else tr)))"

subsection \<open>Runs of a process\<close>

text \<open>
  A process constructs tree views and calls \<^verbatim>\<open>AddItem\<close> and \<^verbatim>\<open>RemoveItem\<close> on them in
  any order. A view is named by its position in the order of construction;
  \<open>issued\<close> lists the identifiers given out so far, the latest first.
\<close>

datatype op = NewTreeView | AddItemOp nat ItemId string | RemoveItemOp nat ItemId

record world =
  proc :: process
  views :: "Impl list"
  issued :: "ItemId list"

definition start :: world where
  "start = \<lparr>proc = \<lparr>g_next_id = 0, heap_next = 0\<rparr>, views = [], issued = []\<rparr>"

fun step :: "op \<Rightarrow> world \<Rightarrow> error + world" where
  "step NewTreeView w =
     (case TreeView_new (proc w) of
        (g, s) \<Rightarrow> Inr \<lparr>proc = g, views = views w @ [s], issued = item_id (root s) # issued w\<rparr>)"
| "step (AddItemOp k parent_id txt) w =
     (if k < length (views w)
      then (case AddItem (proc w) (views w ! k) parent_id txt of
              Inl e \<Rightarrow> Inl e
            | Inr (g, s, i) \<Rightarrow>
                Inr \<lparr>proc = g, views = (views w)[k := s], issued = i # issued w\<rparr>)
      else Inl NoSuchView)"
| "step (RemoveItemOp k i) w =
     (if k < length (views w)
      then (case RemoveItem (views w ! k) i of
              Inl e \<Rightarrow> Inl e
            | Inr s \<Rightarrow> Inr (w\<lparr>views := (views w)[k := s]\<rparr>))
      else Inl NoSuchView)"

fun run :: "op list \<Rightarrow> world \<Rightarrow> error + world" where
  "run [] w = Inr w"
| "run (x # xs) w = (case step x w of Inl e \<Rightarrow> Inl e | Inr w' \<Rightarrow> run xs w')"

section \<open>Notions for the statements and the proofs\<close>

subsection \<open>The items of a tree and the lookup table\<close>

text \<open>
  \<open>items\<close> lists the items of a tree in the order of a walk that starts at its
  root and follows \<^verbatim>\<open>children\<close>: these are the items reachable from the root.
  \<open>entries\<close> is what the lookup table should hold for them, and \<open>descendants\<close>
  are the items below an item.
\<close>

definition entries :: "Item \<Rightarrow> (ItemId \<times> ptr) list" where
  "entries T = map (\<lambda>x. (item_id x, item_addr x)) (items T)"

definition descendants :: "Item \<Rightarrow> Item list" where
  "descendants x = concat (map items (children x))"

text \<open>
  Every child points back to the item that holds it.
\<close>

fun parents_ok :: "Item \<Rightarrow> bool" where
  "parents_ok (Item a i t p cs) = (\<forall>c\<in>set cs. parent c = Some a \<and> parents_ok c)"

text \<open>
  A tree is in order when no address and no identifier occurs twice in it, the
  parent pointers are right and the root has none. An item is registered when the
  table resolves the identifier of every item of its subtree to that item.
\<close>

definition tree_ok :: "Item \<Rightarrow> bool" where
  "tree_ok T =
     (distinct (map fst (entries T)) \<and> distinct (map snd (entries T)) \<and>
      parents_ok T \<and> parent T = None)"

definition registered :: "(ItemId \<rightharpoonup> ptr) \<Rightarrow> Item \<Rightarrow> bool" where
  "registered M c = (set (entries c) \<subseteq> Map.graph M)"

text \<open>
  The counter goes through the identifiers in the order \<open>0, \<dots>, 2147483647,
  - 2147483648, \<dots>, - 1\<close> and is back at \<open>0\<close> after \<open>4294967296\<close> steps. \<open>as_unsigned i\<close>
  is the place of \<open>i\<close> in this order (the same 32 bits read as an unsigned number),
  and \<open>id_of_count k\<close> is the counter after \<open>k\<close> steps from \<open>0\<close>: the identifier
  given out after \<open>k\<close> others.
\<close>

definition as_unsigned :: "ItemId \<Rightarrow> nat" where
  "as_unsigned i = nat (i mod 4294967296)"

definition id_of_count :: "nat \<Rightarrow> ItemId" where
  "id_of_count k =
     (if k mod 4294967296 < 2147483648 then int (k mod 4294967296)
      else int (k mod 4294967296) - 4294967296)"

text \<open>
  The invariant of a tree view in a process: the tree is in order, every entry of
  the table is an item of the tree at its address, every item other than the root
  is in the table, and the counters of the process are beyond every identifier
  and address in use; for the identifiers, beyond in the order in which the
  counter goes through them. The entry of the root is not required: \<open>RemoveItem\<close>
  erases it when it is called with the identifier of the root.
\<close>

definition store_ok :: "process \<Rightarrow> Impl \<Rightarrow> bool" where
  "store_ok g s =
     (tree_ok (root s) \<and>
      Map.graph (id2item s) \<subseteq> set (entries (root s)) \<and>
      set (tl (entries (root s))) \<subseteq> Map.graph (id2item s) \<and>
      (\<forall>e\<in>set (entries (root s)).
         as_unsigned (fst e) < as_unsigned (g_next_id g) \<and> snd e < heap_next g))"

text \<open>
  The parent that \<open>AddItem\<close> chooses and the item it creates.
\<close>

definition parent_addr :: "Impl \<Rightarrow> ItemId \<Rightarrow> ptr" where
  "parent_addr s parent_id =
     (case id2item s parent_id of None \<Rightarrow> item_addr (root s) | Some q \<Rightarrow> q)"

definition new_item :: "process \<Rightarrow> Impl \<Rightarrow> ItemId \<Rightarrow> string \<Rightarrow> Item" where
  "new_item g s parent_id txt =
     Item (heap_next g) (g_next_id g) (txt @ ''##'' @ show_id (g_next_id g))
       (Some (parent_addr s parent_id)) []"

subsection \<open>A tree with a hole\<close>

text \<open>
  For the proofs a tree is split at one of its items: \<open>plug C y\<close> is the tree
  with \<open>y\<close> at the end of the path \<open>C\<close>, whose frames hold, from the root down, the
  fields of each ancestor and the siblings to the left and to the right.
  \<open>frame_entries\<close> are the entries of everything but \<open>y\<close>.
\<close>

datatype frame = Frame ptr ItemId string "ptr option" "Item list" "Item list"

fun plug :: "frame list \<Rightarrow> Item \<Rightarrow> Item" where
  "plug [] y = y"
| "plug (Frame a i t p l r # C) y = Item a i t p (l @ plug C y # r)"

fun frame_entries :: "frame list \<Rightarrow> (ItemId \<times> ptr) list" where
  "frame_entries [] = []"
| "frame_entries (Frame a i t p l r # C) =
     (i, a) # concat (map entries l) @ frame_entries C @ concat (map entries r)"

subsection \<open>What a pass visits\<close>

text \<open>
  The items a pass draws: an item, then its children when ImGui reports the node
  as open. \<open>activated\<close> are the drawn leaves that ImGui reports as clicked, in the
  order of the walk; \<open>select_item\<close> is what the walk does to the selection at
  such a leaf.
\<close>

fun is_Notify :: "event \<Rightarrow> bool" where
  "is_Notify (Notify l i) = True"
| "is_Notify _ = False"

fun visited :: "imgui \<Rightarrow> Item \<Rightarrow> Item list"
  and visiteds :: "imgui \<Rightarrow> Item list \<Rightarrow> Item list" where
  "visited ui (Item a i t p cs) =
     Item a i t p cs # (if TreeNodeEx ui t (cs = []) then visiteds ui cs else [])"
| "visiteds ui [] = []"
| "visiteds ui (c # cs) = visited ui c @ visiteds ui cs"

definition activated :: "imgui \<Rightarrow> Item list \<Rightarrow> Item list" where
  "activated ui cs =
     filter (\<lambda>it. IsItemClicked ui (item_text it) \<and> children it = []) (visiteds ui cs)"

definition select_item :: "Item \<Rightarrow> Impl \<times> Item option \<Rightarrow> Impl \<times> Item option" where
  "select_item it w = (case w of (s, new_selection) \<Rightarrow> (s\<lparr>selected_id := item_id it\<rparr>, Some it))"

definition walk_state :: "walk \<Rightarrow> Impl \<times> Item option" where
  "walk_state w = (fst w, fst (snd w))"

definition walk_trace :: "walk \<Rightarrow> event list" where
  "walk_trace w = snd (snd w)"

subsection \<open>Runs\<close>

text \<open>
  \<open>issues ops\<close> counts the calls in \<open>ops\<close> that take an identifier from the counter:
  the constructions and the calls of \<open>AddItem\<close>.
\<close>

fun issues :: "op list \<Rightarrow> nat" where
  "issues [] = 0"
| "issues (NewTreeView # xs) = Suc (issues xs)"
| "issues (AddItemOp k parent_id txt # xs) = Suc (issues xs)"
| "issues (RemoveItemOp k i # xs) = issues xs"

text \<open>
  \<open>root_kept v ops w\<close>: no step of the run asks the tree view \<open>v\<close> to remove its
  own root. What the run asks of the other tree views does not count.
\<close>

fun removes_root :: "nat \<Rightarrow> op \<Rightarrow> world \<Rightarrow> bool" where
  "removes_root v (RemoveItemOp k i) w =
     (k = v \<and> v < length (views w) \<and> i = GetRootItem (views w ! v))"
| "removes_root v _ w = False"

fun root_kept :: "nat \<Rightarrow> op list \<Rightarrow> world \<Rightarrow> bool" where
  "root_kept v [] w = True"
| "root_kept v (x # xs) w =
     (\<not> removes_root v x w \<and>
      (case step x w of Inl e \<Rightarrow> True | Inr w' \<Rightarrow> root_kept v xs w'))"

definition views_ok :: "world \<Rightarrow> bool" where
  "views_ok w = (\<forall>s\<in>set (views w). store_ok (proc w) s)"

text \<open>
  \<open>first_ids n\<close> are the first \<open>n\<close> values of the counter. In a world that is
  \<open>counted\<close>, these are the identifiers given out, in this order, and the counter
  is at the next one.
\<close>

definition first_ids :: "nat \<Rightarrow> ItemId list" where
  "first_ids n = map id_of_count [0..<n]"

definition counted :: "world \<Rightarrow> bool" where
  "counted w =
     (rev (issued w) = first_ids (length (issued w)) \<and>
      g_next_id (proc w) = id_of_count (length (issued w)))"

text \<open>
  The table of the tree view \<open>v\<close> resolves the identifier of the root to the root,
  or has no entry for it.
\<close>

definition root_registered :: "nat \<Rightarrow> world \<Rightarrow> bool" where
  "root_registered v w =
     (v < length (views w) \<longrightarrow>
      id2item (views w ! v) (item_id (root (views w ! v))) =
        Some (item_addr (root (views w ! v))))"

definition root_unregistered :: "nat \<Rightarrow> world \<Rightarrow> bool" where
  "root_unregistered v w =
     (v < length (views w) \<and> id2item (views w ! v) (item_id (root (views w ! v))) = None)"

subsection \<open>Reading an identifier\<close>

text \<open>
  The number that a string of decimal digits denotes, and the integer that a
  string denotes in decimal notation: digits with no leading zero, after a minus
  sign for a negative number. A digit is a character with a code from 48 to 57,
  and its value is the code minus 48.
\<close>

definition is_digit :: "char \<Rightarrow> bool" where
  "is_digit c = (48 \<le> (of_char c :: nat) \<and> (of_char c :: nat) \<le> 57)"

definition digit_value :: "char \<Rightarrow> nat" where
  "digit_value c = of_char c - 48"

definition decimal_value :: "string \<Rightarrow> nat" where
  "decimal_value ds = foldl (\<lambda>n c. 10 * n + digit_value c) 0 ds"

definition is_decimal :: "string \<Rightarrow> bool" where
  "is_decimal ds = (ds \<noteq> [] \<and> list_all is_digit ds \<and> (hd ds = CHR ''0'' \<longrightarrow> ds = ''0''))"

definition read_id :: "string \<Rightarrow> ItemId option" where
  "read_id str =
     (case str of
        [] \<Rightarrow> None
      | c # ds \<Rightarrow>
          if c = CHR ''-''
          then (if is_decimal ds \<and> ds \<noteq> ''0'' then Some (- int (decimal_value ds)) else None)
          else (if is_decimal str then Some (int (decimal_value str)) else None))"

subsection \<open>Examples\<close>

text \<open>
  The scenario of the specification: a tree view with the root 0, \<open>A\<close> under the
  root and \<open>B\<close> and \<open>C\<close> under \<open>A\<close>, as four calls build it (\<open>ex_run\<close> below);
  the same view with \<open>C\<close> selected and a listener registered; a new tree view, the
  view after it removed its root, and a view whose only item has the identifier 7.
  Then a run of two tree views of which the first removes its root, with the second
  view after this run, and a run in which two tree views take turns.
\<close>

definition ex_ops :: "op list" where
  "ex_ops = [NewTreeView, AddItemOp 0 0 ''A'', AddItemOp 0 1 ''B'', AddItemOp 0 1 ''C'']"

definition ex_proc :: process where
  "ex_proc = \<lparr>g_next_id = 4, heap_next = 4\<rparr>"

definition ex_tree :: Item where
  "ex_tree = Item 0 0 [] None
     [Item 1 1 ''A##1'' (Some 0)
        [Item 2 2 ''B##2'' (Some 1) [], Item 3 3 ''C##3'' (Some 1) []]]"

definition ex_view :: Impl where
  "ex_view = \<lparr>root = ex_tree, id2item = [0 \<mapsto> 0, 1 \<mapsto> 1, 2 \<mapsto> 2, 3 \<mapsto> 3],
     selected_id = - 1, on_value_changed = False\<rparr>"

definition ex_listening :: Impl where
  "ex_listening = SetOnValueChanged (SetSelectedItemId ex_view 3) True"

definition ex_new :: Impl where
  "ex_new = \<lparr>root = Item 0 0 [] None [], id2item = [0 \<mapsto> 0], selected_id = - 1,
     on_value_changed = False\<rparr>"

definition ex_cleared :: Impl where
  "ex_cleared = \<lparr>root = Item 0 0 [] None [], id2item = Map.empty, selected_id = - 1,
     on_value_changed = False\<rparr>"

definition ex_seven :: Impl where
  "ex_seven = \<lparr>root = Item 0 0 [] None [Item 7 7 ''A##7'' (Some 0) []],
     id2item = [0 \<mapsto> 0, 7 \<mapsto> 7], selected_id = - 1, on_value_changed = True\<rparr>"

definition ex_two_views_ops :: "op list" where
  "ex_two_views_ops = [NewTreeView, NewTreeView, AddItemOp 1 1 ''B'', RemoveItemOp 0 0]"

definition ex_second :: Impl where
  "ex_second = \<lparr>root = Item 1 1 [] None [Item 2 2 ''B##2'' (Some 1) []],
     id2item = [1 \<mapsto> 1, 2 \<mapsto> 2], selected_id = - 1, on_value_changed = False\<rparr>"

definition ex_mixed_ops :: "op list" where
  "ex_mixed_ops =
     [NewTreeView, AddItemOp 0 0 ''A'', NewTreeView, AddItemOp 1 2 ''B'', RemoveItemOp 0 1,
      AddItemOp 0 0 ''C'', AddItemOp 1 999 ''X'']"





text \<open>
  ImGui with every node open: one that reports a click on the item with a given
  text, and one that reports no click.
\<close>

definition ui_click :: "string \<Rightarrow> imgui" where
  "ui_click t0 = \<lparr>TreeNodeEx = (\<lambda>t leaf. True), IsItemClicked = (\<lambda>t. t = t0)\<rparr>"

definition ui_idle :: imgui where
  "ui_idle = \<lparr>TreeNodeEx = (\<lambda>t leaf. True), IsItemClicked = (\<lambda>t. False)\<rparr>"

section \<open>The counter\<close>

lemma as_unsigned_lt [simp]: "as_unsigned i < 4294967296"
  by (simp add: as_unsigned_def nat_less_iff)

lemma as_unsigned_next_id:
  "as_unsigned (next_id c) = (as_unsigned c + 1) mod 4294967296"
proof -
  have "next_id c mod 4294967296 = (c + 1) mod 4294967296"
    by (simp add: next_id_def)
  moreover have "(c mod 4294967296 + 1) mod 4294967296 = (c + 1) mod 4294967296"
    by (rule mod_add_left_eq)
  then have "int ((as_unsigned c + 1) mod 4294967296) = (c + 1) mod 4294967296"
    by (simp add: as_unsigned_def zmod_int add.commute)
  ultimately show ?thesis
    by (metis as_unsigned_def nat_int)
qed

lemma as_unsigned_next_id_less:
  assumes "as_unsigned c \<noteq> 4294967295"
  shows "as_unsigned (next_id c) = as_unsigned c + 1"
proof -
  have "as_unsigned c + 1 < 4294967296" using assms as_unsigned_lt [of c] by linarith
  then show ?thesis by (simp add: as_unsigned_next_id)
qed

lemma as_unsigned_id_of_count: "as_unsigned (id_of_count k) = k mod 4294967296"
proof -
  define m where "m = k mod 4294967296"
  have m: "m < 4294967296" by (simp add: m_def)
  have "as_unsigned (if m < 2147483648 then int m else int m - 4294967296) = m"
  proof (cases "m < 2147483648")
    case True
    then show ?thesis using m by (simp add: as_unsigned_def)
  next
    case False
    have "(int m - 4294967296) mod 4294967296 = int m mod 4294967296"
      by (metis mod_diff_right_eq mod_self diff_zero)
    then show ?thesis using False m by (simp add: as_unsigned_def)
  qed
  then show ?thesis unfolding id_of_count_def m_def .
qed

lemma next_id_id_of_count: "next_id (id_of_count k) = id_of_count (Suc k)"
proof -
  define m where "m = k mod 4294967296"
  have m: "m < 4294967296" by (simp add: m_def)
  have S: "Suc k mod 4294967296 = (if Suc m = 4294967296 then 0 else Suc m)"
    by (simp add: mod_Suc m_def)
  consider "m = 4294967295" | "m = 2147483647" | "m < 2147483647"
    | "2147483648 \<le> m" "m < 4294967295"
    using m by linarith
  then show ?thesis
  proof cases
    case 1
    then show ?thesis using S by (simp add: next_id_def id_of_count_def m_def [symmetric])
  next
    case 2
    then show ?thesis using S by (simp add: next_id_def id_of_count_def m_def [symmetric])
  next
    case 3
    then show ?thesis using S by (simp add: next_id_def id_of_count_def m_def [symmetric])
  next
    case 4
    then show ?thesis using S by (simp add: next_id_def id_of_count_def m_def [symmetric])
  qed
qed

lemma id_of_count_values:
  "id_of_count 0 = 0" "id_of_count 4294967296 = 0" "id_of_count 4294967295 = - 1"
  "id_of_count 2147483648 = - 2147483648"
  by (simp_all add: id_of_count_def)


lemma as_unsigned_neq: "as_unsigned i < as_unsigned j \<Longrightarrow> i \<noteq> j"
  by auto

section \<open>Printing and reading an identifier\<close>

lemma digit_cases:
  "d < (10::nat) \<Longrightarrow> d = 0 \<or> d = 1 \<or> d = 2 \<or> d = 3 \<or> d = 4 \<or> d = 5 \<or> d = 6 \<or> d = 7 \<or> d = 8 \<or> d = 9"
  by arith

lemma digit_props:
  assumes "d < 10"
  shows "is_digit (digit d) \<and> digit_value (digit d) = d \<and> (digit d = CHR ''0'' \<longleftrightarrow> d = 0)"
  using digit_cases [OF assms]
  by (elim disjE) (simp_all add: digit_def is_digit_def digit_value_def)

lemma decimal_value_snoc: "decimal_value (ds @ [c]) = 10 * decimal_value ds + digit_value c"
  by (simp add: decimal_value_def)

lemma dec_nat_decimal:
  "dec_nat n \<noteq> [] \<and> list_all is_digit (dec_nat n) \<and> decimal_value (dec_nat n) = n \<and>
   (hd (dec_nat n) = CHR ''0'' \<longrightarrow> n = 0)"
proof (induction n rule: dec_nat.induct)
  case (1 n)
  show ?case
  proof (cases "n < 10")
    case True
    then have "dec_nat n = [digit n]" by (simp add: dec_nat.simps)
    then show ?thesis using digit_props [OF True] by (simp add: decimal_value_def)
  next
    case False
    have m: "n mod 10 < 10" by simp
    have d: "dec_nat n = dec_nat (n div 10) @ [digit (n mod 10)]"
      using False by (subst dec_nat.simps) simp
    have "n div 10 \<noteq> 0" using False by (simp add: div_eq_0_iff)
    then show ?thesis
      using 1 [OF False] digit_props [OF m] unfolding d by (simp add: decimal_value_snoc)
  qed
qed

lemma dec_nat_zero: "dec_nat n = ''0'' \<longleftrightarrow> n = 0"
proof
  assume "dec_nat n = ''0''"
  then have "decimal_value (dec_nat n) = decimal_value ''0''" by simp
  then show "n = 0" by (simp add: dec_nat_decimal) (simp add: decimal_value_def digit_value_def)
next
  assume "n = 0"
  then show "dec_nat n = ''0''" by (simp add: dec_nat.simps digit_def)
qed

lemma is_decimal_dec_nat: "is_decimal (dec_nat n)"
  using dec_nat_decimal [of n] dec_nat_zero [of n] by (simp add: is_decimal_def)

text \<open>
  Reading what \<open>show_id\<close> prints gives the identifier back: the text printed is the
  decimal notation of the identifier, and of no other.
\<close>

lemma read_show_id: "read_id (show_id i) = Some i"
proof (cases "i < 0")
  case True
  then have "nat (- i) \<noteq> 0" by simp
  then have "dec_nat (nat (- i)) \<noteq> ''0''" by (simp only: dec_nat_zero not_False_eq_True)
  then show ?thesis
    using True is_decimal_dec_nat [of "nat (- i)"] dec_nat_decimal [of "nat (- i)"]
    by (simp add: read_id_def show_id_def)
next
  case False
  obtain c ds where s: "dec_nat (nat i) = c # ds"
    using dec_nat_decimal [of "nat i"] by (cases "dec_nat (nat i)") auto
  then have "is_digit c" using dec_nat_decimal [of "nat i"] by simp
  then have "c \<noteq> CHR ''-''" by (auto simp: is_digit_def)
  then show ?thesis
    using False s is_decimal_dec_nat [of "nat i"] dec_nat_decimal [of "nat i"]
    by (simp add: read_id_def show_id_def)
qed

section \<open>Trees and pointers\<close>

lemma entries_Item [simp]:
  "entries (Item a i t p cs) = (i, a) # concat (map entries cs)"
  by (simp add: entries_def [abs_def] map_concat comp_def)

lemma entries_hd: "entries T = (item_id T, item_addr T) # concat (map entries (children T))"
  by (cases T) simp

lemma length_entries [simp]: "length (entries T) = length (items T)"
  by (simp add: entries_def)

lemma map_fst_entries: "map fst (entries T) = map item_id (items T)"
  by (simp add: entries_def)

lemma map_snd_entries: "map snd (entries T) = map item_addr (items T)"
  by (simp add: entries_def)

lemma fst_set_entries: "fst ` set (entries T) = item_id ` set (items T)"
  by (simp add: entries_def image_image)

lemma items_self [simp]: "T \<in> set (items T)"
  by (cases T) simp

lemma items_nonempty [simp]: "0 < length (items T)"
  by (cases T) simp

lemma entry_item:
  "(i, a) \<in> set (entries T) \<Longrightarrow> \<exists>x\<in>set (items T). item_id x = i \<and> item_addr x = a"
  by (auto simp: entries_def)

lemma root_entry_in: "(item_id T, item_addr T) \<in> set (entries T)"
  by (cases T) simp

lemma item_addr_plug_entries: "(item_id y, item_addr y) \<in> set (entries y)"
  by (cases y) simp

lemma children_items: "(\<Union>c\<in>set (children T). set (items c)) \<subseteq> set (items T)"
  by (cases T) auto

lemma in_set_tl: "x \<in> set (tl xs) \<Longrightarrow> x \<in> set xs"
  by (cases xs) auto

lemma distinct_ids_eq:
  "distinct (map item_id (items T)) \<Longrightarrow> x \<in> set (items T) \<Longrightarrow> y \<in> set (items T) \<Longrightarrow>
   item_id x = item_id y \<Longrightarrow> x = y"
  by (meson distinct_map inj_onD)


lemma find_item_in_items:
  "find_item q T = Some x \<Longrightarrow> x \<in> set (items T) \<and> item_addr x = q"
  "find_items q cs = Some x \<Longrightarrow> (\<exists>c\<in>set cs. x \<in> set (items c)) \<and> item_addr x = q"
  by (induction q T and q cs rule: find_item_find_items.induct)
     (auto split: if_splits option.splits)

lemma find_item_None:
  "(find_item q T = None) = (q \<notin> snd ` set (entries T))"
  "(find_items q cs = None) = (\<forall>c\<in>set cs. q \<notin> snd ` set (entries c))"
  by (induction q T and q cs rule: find_item_find_items.induct)
     (auto split: if_splits option.splits)

lemma find_items_append:
  "find_items q (l @ r) = (case find_items q l of Some x \<Rightarrow> Some x | None \<Rightarrow> find_items q r)"
  by (induction l) (auto split: option.splits)

lemma find_item_here: "item_addr y = q \<Longrightarrow> find_item q y = Some y"
  by (cases y) simp

lemma modify_item_absent:
  "q \<notin> snd ` set (entries T) \<Longrightarrow> modify_item q f T = T"
  by (induction T) (auto intro!: map_idI)

lemma modify_item_here:
  "item_addr y = q \<Longrightarrow>
   modify_item q f y = Item q (item_id y) (item_text y) (parent y) (f (children y))"
  by (cases y) simp


lemma modify_item_fields:
  "item_id (modify_item q f T) = item_id T \<and> item_addr (modify_item q f T) = item_addr T"
  by (cases T) simp

subsection \<open>Splitting a tree at an item\<close>

lemma plug_append: "plug (C @ D) y = plug C (plug D y)"
  by (induction C y rule: plug.induct) auto

lemma plug_snoc:
  "plug (C @ [Frame q j t p l r]) x = plug C (Item q j t p (l @ x # r))"
  by (simp add: plug_append)

lemma mset_entries_plug:
  "mset (entries (plug C y)) = mset (frame_entries C) + mset (entries y)"
  by (induction C y rule: plug.induct) auto

lemma set_entries_plug:
  "set (entries (plug C y)) = set (frame_entries C) \<union> set (entries y)"
  by (induction C y rule: plug.induct) auto

lemma mset_entries_plug_child:
  "mset (entries (plug C (Item a j t p (l @ c # r)))) =
   mset (entries (plug C (Item a j t p (l @ r)))) + mset (entries c)"
  by (simp add: mset_entries_plug)

lemma mset_tl_entries_plug:
  "mset (tl (entries (plug C (Item q j t p cs)))) =
   mset (tl (frame_entries C @ [(j, q)])) + mset (concat (map entries cs))"
proof (cases C rule: frame_entries.cases)
  case 1
  then show ?thesis by simp
next
  case (2 a' i' t' p' l' r' C')
  then show ?thesis by (simp add: mset_entries_plug)
qed

lemma items_plug_ex: "x \<in> set (items T) \<Longrightarrow> \<exists>C. T = plug C x"
proof (induction T)
  case (Item a i t p cs)
  show ?case
  proof (cases "x = Item a i t p cs")
    case True
    then have "Item a i t p cs = plug [] x" by simp
    then show ?thesis by blast
  next
    case False
    with Item.prems obtain c where c: "c \<in> set cs" "x \<in> set (items c)" by auto
    from Item.IH [OF this] obtain C where C: "c = plug C x" by blast
    from c(1) obtain l r where "cs = l @ c # r" by (meson split_list)
    with C have "Item a i t p cs = plug (Frame a i t p l r # C) x" by simp
    then show ?thesis by blast
  qed
qed

lemma items_plug_hole: "y \<in> set (items (plug C y))"
  by (induction C y rule: plug.induct) auto

lemma items_plug_parent:
  assumes "x \<in> set (items T)" "x \<noteq> T"
  shows "\<exists>C q j t p l r. T = plug C (Item q j t p (l @ x # r))"
proof -
  from assms(1) obtain C where C: "T = plug C x" using items_plug_ex by blast
  with assms(2) have "C \<noteq> []" by auto
  then obtain C' F where "C = C' @ [F]" by (meson rev_exhaust)
  moreover obtain q j t p l r where "F = Frame q j t p l r" by (cases F)
  ultimately have "T = plug C' (Item q j t p (l @ x # r))" using C by (simp add: plug_snoc)
  then show ?thesis by blast
qed

lemma length_items_plug: "length (items y) \<le> length (items (plug C y))"
proof -
  have "size (mset (entries (plug C y))) = size (mset (frame_entries C)) + size (mset (entries y))"
    by (simp add: mset_entries_plug)
  then show ?thesis by simp
qed

lemma entries_inner_tl:
  "set (entries x) \<subseteq> set (tl (entries (plug C (Item q j t p (l @ x # r)))))"
proof (cases C rule: frame_entries.cases)
  case 1
  then show ?thesis by auto
next
  case (2 a' i' t' p' l' r' C')
  then show ?thesis by (auto simp: set_entries_plug)
qed

text \<open>
  A pointer to an address that the path does not hold goes through to the hole.
\<close>

lemma modify_item_plug:
  "q \<notin> snd ` set (frame_entries C) \<Longrightarrow> modify_item q f (plug C y) = plug C (modify_item q f y)"
proof (induction C y rule: plug.induct)
  case (2 a i t p l r C y)
  have "map (modify_item q f) l = l" "map (modify_item q f) r = r"
    using 2(2) by (auto intro!: map_idI modify_item_absent)
  with 2 show ?case by auto
qed simp

lemma find_item_plug:
  "q \<notin> snd ` set (frame_entries C) \<Longrightarrow> find_item q (plug C y) = find_item q y"
proof (induction C y rule: plug.induct)
  case (2 a i t p l r C y)
  have "find_items q l = None" "find_items q r = None" "q \<noteq> a"
    using 2(2) by (auto simp: find_item_None)
  moreover have "find_item q (plug C y) = find_item q y" using 2 by auto
  ultimately show ?case by (simp add: find_items_append split: option.splits)
qed simp

lemma item_fields_plug:
  "C \<noteq> [] \<Longrightarrow> item_addr (plug C y) = item_addr (plug C y') \<and>
     item_id (plug C y) = item_id (plug C y') \<and> parent (plug C y) = parent (plug C y') \<and>
     item_text (plug C y) = item_text (plug C y')"
  by (cases C rule: frame_entries.cases) auto

lemma root_fields_plug:
  "item_id (plug C (Item q j t p cs)) = item_id (plug C (Item q j t p cs')) \<and>
   item_addr (plug C (Item q j t p cs)) = item_addr (plug C (Item q j t p cs')) \<and>
   item_text (plug C (Item q j t p cs)) = item_text (plug C (Item q j t p cs')) \<and>
   parent (plug C (Item q j t p cs)) = parent (plug C (Item q j t p cs'))"
  by (cases C rule: frame_entries.cases) auto

lemma parents_ok_plug_replace:
  "parents_ok (plug C y) \<Longrightarrow> item_addr y' = item_addr y \<Longrightarrow> parent y' = parent y \<Longrightarrow>
   parents_ok y' \<Longrightarrow> parents_ok (plug C y')"
proof (induction C y rule: plug.induct)
  case (2 a i t p l r C y)
  have "parent (plug C y') = parent (plug C y)"
    using 2(3,4) item_fields_plug [of C y' y] by (cases "C = []") auto
  with 2 show ?case by auto
qed simp

lemma parents_ok_plug_hole: "parents_ok (plug C y) \<Longrightarrow> parents_ok y"
  by (induction C y rule: plug.induct) auto

lemma parents_ok_child:
  "parents_ok y \<Longrightarrow> c \<in> set (children y) \<Longrightarrow> parent c = Some (item_addr y) \<and> parents_ok c"
  by (cases y) auto

subsection \<open>Trees in order\<close>

lemma distinct_entries_split:
  assumes "mset es = mset es1 + mset es2" "distinct (map f es)"
  shows "distinct (map f es1)" "distinct (map f es2)" "f ` set es1 \<inter> f ` set es2 = {}"
proof -
  have "mset (map f es) = mset (map f (es1 @ es2))" using assms(1) by simp
  then have "distinct (map f (es1 @ es2))"
    using assms(2) mset_eq_imp_distinct_iff by blast
  then show "distinct (map f es1)" "distinct (map f es2)" "f ` set es1 \<inter> f ` set es2 = {}"
    by auto
qed

lemma tree_ok_hole_addr:
  assumes "tree_ok (plug C y)"
  shows "item_addr y \<notin> snd ` set (frame_entries C)"
proof -
  have "snd ` set (frame_entries C) \<inter> snd ` set (entries y) = {}"
    using distinct_entries_split(3) [OF mset_entries_plug, of snd C y] assms
    by (simp add: tree_ok_def)
  moreover have "item_addr y \<in> snd ` set (entries y)"
    using item_addr_plug_entries [of y] by force
  ultimately show ?thesis by blast
qed

lemma tree_ok_find_hole:
  "tree_ok (plug C y) \<Longrightarrow> find_item (item_addr y) (plug C y) = Some y"
  by (simp add: find_item_plug tree_ok_hole_addr find_item_here)


lemma ids_not_in_removed:
  assumes "tree_ok (plug C (Item q j t p (l @ x # r)))"
  shows "item_id ` set (items (plug C (Item q j t p (l @ r)))) \<inter> item_id ` set (items x) = {}"
  using distinct_entries_split(3) [OF mset_entries_plug_child, of fst C q j t p l x r] assms
  by (simp add: tree_ok_def fst_set_entries)

lemma tree_ok_remove_child:
  assumes "tree_ok (plug C (Item a j t p (l @ c # r)))"
  shows "tree_ok (plug C (Item a j t p (l @ r)))"
proof -
  let ?y = "Item a j t p (l @ c # r)" and ?y' = "Item a j t p (l @ r)"
  note m = mset_entries_plug_child [of C a j t p l c r]
  have d: "distinct (map fst (entries (plug C ?y')))" "distinct (map snd (entries (plug C ?y')))"
    using distinct_entries_split(1) [OF m, of fst] distinct_entries_split(1) [OF m, of snd] assms
    by (simp_all add: tree_ok_def)
  have "parents_ok (plug C ?y)" using assms by (simp add: tree_ok_def)
  then have py: "parents_ok ?y" by (rule parents_ok_plug_hole)
  have "parents_ok (plug C ?y')"
    by (rule parents_ok_plug_replace [where y = ?y]) (use assms py in \<open>auto simp: tree_ok_def\<close>)
  moreover have "parent (plug C ?y') = None"
  proof (cases "C = []")
    case True
    then show ?thesis using assms by (simp add: tree_ok_def)
  next
    case False
    then show ?thesis using assms item_fields_plug [of C ?y' ?y] by (simp add: tree_ok_def)
  qed
  ultimately show ?thesis using d by (simp add: tree_ok_def)
qed

lemma tree_ok_add_child:
  assumes "tree_ok (plug C (Item q j t p cs))"
    and "i \<notin> fst ` set (entries (plug C (Item q j t p cs)))"
    and "a \<notin> snd ` set (entries (plug C (Item q j t p cs)))"
  shows "tree_ok (plug C (Item q j t p (cs @ [Item a i t' (Some q) []])))"
proof -
  let ?y = "Item q j t p cs" and ?y' = "Item q j t p (cs @ [Item a i t' (Some q) []])"
  have m: "mset (entries (plug C ?y')) = mset ((i, a) # entries (plug C ?y))"
    by (simp add: mset_entries_plug)
  have "mset (map fst (entries (plug C ?y'))) = mset (map fst ((i, a) # entries (plug C ?y)))"
    "mset (map snd (entries (plug C ?y'))) = mset (map snd ((i, a) # entries (plug C ?y)))"
    using m by (metis mset_map)+
  then have "distinct (map fst (entries (plug C ?y'))) = distinct (map fst ((i, a) # entries (plug C ?y)))"
    "distinct (map snd (entries (plug C ?y'))) = distinct (map snd ((i, a) # entries (plug C ?y)))"
    using mset_eq_imp_distinct_iff by blast+
  then have d: "distinct (map fst (entries (plug C ?y')))" "distinct (map snd (entries (plug C ?y')))"
    using assms by (simp_all add: tree_ok_def)
  have "parents_ok (plug C ?y)" using assms(1) by (simp add: tree_ok_def)
  then have py: "parents_ok ?y" by (rule parents_ok_plug_hole)
  have "parents_ok (plug C ?y')"
    by (rule parents_ok_plug_replace [where y = ?y]) (use assms py in \<open>auto simp: tree_ok_def\<close>)
  moreover have "parent (plug C ?y') = None"
    using assms(1) root_fields_plug [of C q j t p cs "cs @ [Item a i t' (Some q) []]"]
    by (simp add: tree_ok_def)
  ultimately show ?thesis using d by (simp add: tree_ok_def)
qed

lemma table_remove_child:
  assumes "Map.graph M \<subseteq> set (entries (plug C (Item a j t p (l @ c # r))))"
  shows "Map.graph (M |` (- fst ` set (entries c))) \<subseteq> set (entries (plug C (Item a j t p (l @ r))))"
proof
  fix e assume e: "e \<in> Map.graph (M |` (- fst ` set (entries c)))"
  obtain k v where kv: "e = (k, v)" by (cases e)
  with e have r: "(M |` (- fst ` set (entries c))) k = Some v"
    by (simp add: in_graphD)
  then have "k \<notin> fst ` set (entries c)"
    by (cases "k \<in> fst ` set (entries c)") simp_all
  with r have "M k = Some v" "k \<notin> fst ` set (entries c)"
    by simp_all
  then have "(k, v) \<in> set (entries (plug C (Item a j t p (l @ c # r))))"
    using assms by (auto intro: in_graphI)
  moreover have "(k, v) \<notin> set (entries c)"
    using \<open>k \<notin> fst ` set (entries c)\<close> by (metis fst_conv image_eqI)
  ultimately have "(k, v) \<in> set (entries (plug C (Item a j t p (l @ c # r))))" "(k, v) \<notin> set (entries c)"
    by auto
  then show "e \<in> set (entries (plug C (Item a j t p (l @ r))))"
    using kv by (auto simp: set_entries_plug)
qed

lemma erase_id_append:
  "i \<notin> item_id ` set l \<Longrightarrow> item_id c = i \<Longrightarrow> erase_id i (l @ c # r) = l @ r"
  by (induction l) auto

lemma ids_children_subset:
  "c \<in> set l \<Longrightarrow> item_id c \<in> fst ` (\<Union>x\<in>set l. set (entries x))"
  using item_addr_plug_entries by force


lemma restrict_restrict_compl:
  "(M |` (- A)) |` (- B) = M |` (- (A \<union> B))"
  by (auto simp: restrict_map_def fun_eq_iff)

lemma upd_None_restrict:
  "(M(i := None)) |` (- A) = M |` (- insert i A)"
  by (auto simp: restrict_map_def fun_eq_iff)

lemma registered_restrict:
  "registered M c \<Longrightarrow> fst ` set (entries c) \<inter> A = {} \<Longrightarrow> registered (M |` (- A)) c"
  unfolding registered_def
proof
  fix e assume a: "set (entries c) \<subseteq> Map.graph M" "fst ` set (entries c) \<inter> A = {}"
    "e \<in> set (entries c)"
  obtain k v where kv: "e = (k, v)" by (cases e)
  with a have "M k = Some v" by (auto dest: in_graphD)
  moreover have "k \<notin> A" using a(2,3) kv by force
  ultimately show "e \<in> Map.graph (M |` (- A))" using kv by (simp add: in_graphI)
qed

section \<open>RemoveItem\<close>

text \<open>
  The recursion, by induction on the calls. Called with the identifier of an item
  \<open>c\<close> whose subtree is registered, \<open>RemoveItem_fuel\<close> returns, given fuel for twice
  the items of the subtree, with \<open>c\<close> taken out of the list of its parent and the
  identifiers of the subtree taken out of the table. The loop empties the list of
  the item it runs on. Neither needs the ancestors of the item to be in the table:
  they are not while they are being removed themselves.
\<close>

lemma RemoveItem_fuel_loop_correct:
  "\<forall>C a j t p l c r.
     root s = plug C (Item a j t p (l @ c # r)) \<longrightarrow> item_id c = i \<longrightarrow>
     tree_ok (root s) \<longrightarrow> Map.graph (id2item s) \<subseteq> set (entries (root s)) \<longrightarrow>
     registered (id2item s) c \<longrightarrow> 2 * length (items c) \<le> n \<longrightarrow>
     RemoveItem_fuel n s i =
       Inr (s\<lparr>root := plug C (Item a j t p (l @ r)),
              id2item := id2item s |` (- fst ` set (entries c))\<rparr>)"
  "\<forall>C j t p cs.
     root s = plug C (Item item j t p cs) \<longrightarrow>
     tree_ok (root s) \<longrightarrow> Map.graph (id2item s) \<subseteq> set (entries (root s)) \<longrightarrow>
     (\<forall>c\<in>set cs. registered (id2item s) c) \<longrightarrow>
     2 * length (concat (map items cs)) + 1 \<le> n \<longrightarrow>
     RemoveItem_loop n s item =
       Inr (s\<lparr>root := plug C (Item item j t p []),
              id2item := id2item s |` (- fst ` (\<Union>c\<in>set cs. set (entries c)))\<rparr>)"
proof (induction n s i and n s item rule: RemoveItem_fuel_RemoveItem_loop.induct)
  case (1 s i)
  show ?case
  proof (intro allI impI)
    fix C a j t p l c r
    assume "2 * length (items c) \<le> (0::nat)"
    then show "RemoveItem_fuel 0 s i =
       Inr (s\<lparr>root := plug C (Item a j t p (l @ r)),
              id2item := id2item s |` (- fst ` set (entries c))\<rparr>)"
      by (cases c) simp
  qed
next
  case (2 n s i)
  show ?case
  proof (intro allI impI)
    fix C a j t p l c r
    assume T: "root s = plug C (Item a j t p (l @ c # r))" and i: "item_id c = i"
      and ok: "tree_ok (root s)" and tab: "Map.graph (id2item s) \<subseteq> set (entries (root s))"
      and reg: "registered (id2item s) c" and fuel: "2 * length (items c) \<le> Suc n"
    obtain ac tc pc ccs where c: "c = Item ac i tc pc ccs" using i by (cases c) auto
    let ?F = "Frame a j t p l r"
    let ?M = "id2item s"
    let ?s1 = "s\<lparr>id2item := ?M(i := None)\<rparr>"
    have T': "root s = plug (C @ [?F]) c" by (simp add: T plug_append)
    have look: "?M i = Some ac"
      using reg c by (auto simp: registered_def dest: in_graphD)
    have okc: "tree_ok (plug (C @ [?F]) (Item ac i tc pc ccs))" using ok T' c by simp
    have dc: "distinct (map fst (entries c))"
      using distinct_entries_split(2) [OF mset_entries_plug, of fst "C @ [?F]" c] ok T'
      by (simp add: tree_ok_def)
    have regs: "\<forall>ch\<in>set ccs. registered (?M(i := None)) ch"
    proof
      fix ch assume ch: "ch \<in> set ccs"
      have "set (entries ch) \<subseteq> Map.graph ?M" using reg ch c by (auto simp: registered_def)
      moreover have "i \<notin> fst ` set (entries ch)" using dc ch c by auto
      ultimately show "registered (?M(i := None)) ch"
        by (auto simp: registered_def graph_fun_upd_None)
    qed
    have tab1: "Map.graph (id2item ?s1) \<subseteq> set (entries (root ?s1))"
      using tab by (auto simp: graph_fun_upd_None)
    have fuel1: "2 * length (concat (map items ccs)) + 1 \<le> n" using fuel c by simp
    let ?s2 = "?s1\<lparr>root := plug (C @ [?F]) (Item ac i tc pc []),
                   id2item := id2item ?s1 |` (- fst ` (\<Union>c\<in>set ccs. set (entries c)))\<rparr>"
    have loop: "RemoveItem_loop n ?s1 ac = Inr ?s2"
      using "2.IH" [OF look, rule_format, of "C @ [?F]" i tc pc ccs] T' c ok tab1 regs fuel1
      by simp
    have r2: "root ?s2 = plug C (Item a j t p (l @ Item ac i tc pc [] # r))"
      by (simp add: plug_append)
    have ac_out: "ac \<notin> snd ` set (frame_entries (C @ [?F]))"
      using tree_ok_hole_addr [OF okc] by simp
    have a_out: "a \<notin> snd ` set (frame_entries C)"
      using tree_ok_hole_addr [of C "Item a j t p (l @ c # r)"] ok T by simp
    have f_item: "find_item ac (root ?s2) = Some (Item ac i tc pc [])"
      using find_item_plug [OF ac_out, of "Item ac i tc pc []"] by simp
    have "parents_ok (plug C (Item a j t p (l @ c # r)))" using ok T by (simp add: tree_ok_def)
    then have "parents_ok (Item a j t p (l @ c # r))" by (rule parents_ok_plug_hole)
    then have pc: "pc = Some a" using c by simp
    have f_par: "find_item a (root ?s2) = Some (Item a j t p (l @ Item ac i tc pc [] # r))"
      using find_item_plug [OF a_out, of "Item a j t p (l @ Item ac i tc pc [] # r)"] r2 by simp
    have "distinct (map fst (entries (Item a j t p (l @ c # r))))"
      using distinct_entries_split(2) [OF mset_entries_plug, of fst C "Item a j t p (l @ c # r)"]
        ok T by (simp add: tree_ok_def)
    then have "i \<notin> fst ` (\<Union>x\<in>set l. set (entries x))" using c by auto
    then have il: "i \<notin> item_id ` set l" using ids_children_subset [of _ l] by auto
    have erase: "modify_item a (erase_id i) (root ?s2) = plug C (Item a j t p (l @ r))"
      using modify_item_plug [OF a_out, of "erase_id i" "Item a j t p (l @ Item ac i tc pc [] # r)"]
        r2 erase_id_append [OF il, of "Item ac i tc pc []" r] by simp
    have un: "unlink ?s2 ac i = Inr (?s2\<lparr>root := plug C (Item a j t p (l @ r))\<rparr>)"
      using f_item f_par pc erase by (simp add: unlink_def)
    have "fst ` set (entries c) = insert i (fst ` (\<Union>c\<in>set ccs. set (entries c)))"
      using c by auto
    then have m: "(?M(i := None)) |` (- fst ` (\<Union>c\<in>set ccs. set (entries c))) =
        ?M |` (- fst ` set (entries c))"
      by (simp only: upd_None_restrict)
    show "RemoveItem_fuel (Suc n) s i =
       Inr (s\<lparr>root := plug C (Item a j t p (l @ r)),
              id2item := id2item s |` (- fst ` set (entries c))\<rparr>)"
      using look loop un m by simp
  qed
next
  case (3 s item)
  show ?case by simp
next
  case (4 n s item)
  show ?case
  proof (intro allI impI)
    fix C j t p cs
    assume T: "root s = plug C (Item item j t p cs)"
      and ok: "tree_ok (root s)" and tab: "Map.graph (id2item s) \<subseteq> set (entries (root s))"
      and reg: "\<forall>c\<in>set cs. registered (id2item s) c"
      and fuel: "2 * length (concat (map items cs)) + 1 \<le> Suc n"
    have found: "find_item item (root s) = Some (Item item j t p cs)"
      using tree_ok_find_hole [of C "Item item j t p cs"] ok T by simp
    show "RemoveItem_loop (Suc n) s item =
       Inr (s\<lparr>root := plug C (Item item j t p []),
              id2item := id2item s |` (- fst ` (\<Union>c\<in>set cs. set (entries c)))\<rparr>)"
    proof (cases cs)
      case Nil
      have "s\<lparr>root := plug C (Item item j t p []), id2item := id2item s |` UNIV\<rparr> = s"
        using T Nil by (cases s) (simp add: restrict_map_def)
      then show ?thesis using found Nil by simp
    next
      case (Cons c cs')
      let ?s' = "s\<lparr>root := plug C (Item item j t p cs'),
                    id2item := id2item s |` (- fst ` set (entries c))\<rparr>"
      have T0: "root s = plug C (Item item j t p ([] @ c # cs'))" using T Cons by simp
      have ch: "children (Item item j t p cs) = c # cs'" using Cons by simp
      have f1: "2 * length (items c) \<le> n" using fuel Cons by simp
      have rm: "RemoveItem_fuel n s (item_id c) = Inr ?s'"
        using "4.IH"(1) [OF found ch, rule_format, of C item j t p "[]" c cs']
          T0 ok tab reg f1 Cons by simp
      have ok': "tree_ok (root ?s')"
        using tree_ok_remove_child [of C item j t p "[]" c cs'] ok T0 by simp
      have tab': "Map.graph (id2item ?s') \<subseteq> set (entries (root ?s'))"
        using table_remove_child [of "id2item s" C item j t p "[]" c cs'] tab T0 by simp
      have disj: "\<forall>c'\<in>set cs'. fst ` set (entries c') \<inter> fst ` set (entries c) = {}"
      proof -
        have "distinct (map fst (entries (Item item j t p (c # cs'))))"
          using distinct_entries_split(2) [OF mset_entries_plug, of fst C "Item item j t p (c # cs')"]
            ok T Cons by (simp add: tree_ok_def)
        then have "fst ` set (entries c) \<inter> fst ` (\<Union>a\<in>set cs'. set (entries a)) = {}"
          by simp
        then show ?thesis by blast
      qed
      have reg': "\<forall>c'\<in>set cs'. registered (id2item ?s') c'"
        using reg disj Cons by (auto intro!: registered_restrict)
      have len: "1 \<le> length (items c)" by (cases c) simp
      have f2: "2 * length (concat (map items cs')) + 1 \<le> n" using fuel Cons len by simp
      have lp: "RemoveItem_loop n ?s' item =
          Inr (?s'\<lparr>root := plug C (Item item j t p []),
                 id2item := id2item ?s' |` (- fst ` (\<Union>c\<in>set cs'. set (entries c)))\<rparr>)"
        using "4.IH"(2) [OF found ch rm, rule_format, of C j t p cs'] ok' tab' reg' f2 Cons
        by simp
      have "(\<Union>c\<in>set cs. set (entries c)) = set (entries c) \<union> (\<Union>c\<in>set cs'. set (entries c))"
        using Cons by auto
      then show ?thesis using found Cons rm lp
        by (simp add: restrict_restrict_compl image_Un)
    qed
  qed
qed

text \<open>
  More fuel never changes a result.
\<close>

lemma RemoveItem_fuel_mono:
  "\<forall>m r. n \<le> m \<longrightarrow> RemoveItem_fuel n s i = r \<longrightarrow> r \<noteq> Inl OutOfFuel \<longrightarrow>
     RemoveItem_fuel m s i = r"
  "\<forall>m r. n \<le> m \<longrightarrow> RemoveItem_loop n s item = r \<longrightarrow> r \<noteq> Inl OutOfFuel \<longrightarrow>
     RemoveItem_loop m s item = r"
proof (induction n s i and n s item rule: RemoveItem_fuel_RemoveItem_loop.induct)
  case (1 s i)
  then show ?case by simp
next
  case (2 n s i)
  show ?case
  proof (intro allI impI)
    fix m r
    assume m: "Suc n \<le> m" and r: "RemoveItem_fuel (Suc n) s i = r" and nf: "r \<noteq> Inl OutOfFuel"
    obtain m' where m': "m = Suc m'" "n \<le> m'" using m by (cases m) auto
    show "RemoveItem_fuel m s i = r"
    proof (cases "id2item s i")
      case None
      then show ?thesis using r m' by simp
    next
      case (Some item)
      let ?s1 = "s\<lparr>id2item := (id2item s)(i := None)\<rparr>"
      have "RemoveItem_loop n ?s1 item \<noteq> Inl OutOfFuel"
        using r nf Some by (auto split: sum.splits)
      then have "RemoveItem_loop m' ?s1 item = RemoveItem_loop n ?s1 item"
        using "2.IH" [OF Some] m'(2) by blast
      then show ?thesis using r Some m'(1) by simp
    qed
  qed
next
  case (3 s item)
  then show ?case by simp
next
  case (4 n s item)
  show ?case
  proof (intro allI impI)
    fix m r
    assume m: "Suc n \<le> m" and r: "RemoveItem_loop (Suc n) s item = r" and nf: "r \<noteq> Inl OutOfFuel"
    obtain m' where m': "m = Suc m'" "n \<le> m'" using m by (cases m) auto
    show "RemoveItem_loop m s item = r"
    proof (cases "find_item item (root s)")
      case None
      then show ?thesis using r m' by simp
    next
      case (Some it)
      show ?thesis
      proof (cases "children it")
        case Nil
        then show ?thesis using r Some m' by simp
      next
        case (Cons c cs)
        have a: "RemoveItem_fuel n s (item_id c) \<noteq> Inl OutOfFuel"
          using r nf Some Cons by (auto split: sum.splits)
        then have b: "RemoveItem_fuel m' s (item_id c) = RemoveItem_fuel n s (item_id c)"
          using "4.IH"(1) [OF Some Cons] m'(2) by blast
        show ?thesis
        proof (cases "RemoveItem_fuel n s (item_id c)")
          case (Inl e)
          have "r = Inl e" using r Some Cons Inl by simp
          moreover have "RemoveItem_fuel m' s (item_id c) = Inl e" using b Inl by simp
          then have "RemoveItem_loop m s item = Inl e" using Some Cons m'(1) by simp
          ultimately show ?thesis by simp
        next
          case (Inr s')
          have "RemoveItem_loop n s' item \<noteq> Inl OutOfFuel"
            using r nf Some Cons Inr by auto
          then have "RemoveItem_loop m' s' item = RemoveItem_loop n s' item"
            using "4.IH"(2) [OF Some Cons Inr] m'(2) by blast
          then show ?thesis using r Some Cons Inr b m'(1) by simp
        qed
      qed
    qed
  qed
qed

subsection \<open>What an identifier resolves to\<close>

lemma resolve_root:
  assumes "store_ok g s" "id2item s (item_id (root s)) = Some a"
  shows "a = item_addr (root s)"
proof -
  have "(item_id (root s), a) \<in> set (entries (root s))"
    using assms by (auto simp: store_ok_def intro: in_graphI)
  then obtain x where x: "x \<in> set (items (root s))" "item_id x = item_id (root s)" "item_addr x = a"
    using entry_item by blast
  have "distinct (map item_id (items (root s)))"
    using assms(1) by (simp add: store_ok_def tree_ok_def map_fst_entries)
  then have "x = root s" using x(1,2) distinct_ids_eq items_self by blast
  with x(3) show ?thesis by simp
qed

lemma resolve_inner:
  assumes "store_ok g s" "id2item s i = Some a" "i \<noteq> item_id (root s)"
  shows "\<exists>C q j t p l x r. root s = plug C (Item q j t p (l @ x # r)) \<and>
           item_id x = i \<and> item_addr x = a"
proof -
  have "(i, a) \<in> set (entries (root s))"
    using assms(1,2) by (auto simp: store_ok_def intro: in_graphI)
  then obtain x where x: "x \<in> set (items (root s))" "item_id x = i" "item_addr x = a"
    using entry_item by blast
  with assms(3) have "x \<noteq> root s" by auto
  from items_plug_parent [OF x(1) this] x(2,3) show ?thesis by blast
qed

subsection \<open>The public method\<close>

lemma RemoveItem_unresolved:
  "id2item s i = None \<Longrightarrow> RemoveItem s i = Inr s"
proof -
  obtain n where "2 * length (items (root s)) = Suc n"
    using items_nonempty [of "root s"] by (cases "2 * length (items (root s))") auto
  then show "id2item s i = None \<Longrightarrow> RemoveItem s i = Inr s"
    by (simp add: RemoveItem_def)
qed

lemma RemoveItem_plug:
  assumes "store_ok g s" "root s = plug C (Item q j t p (l @ x # r))"
  shows "RemoveItem s (item_id x) =
     Inr (s\<lparr>root := plug C (Item q j t p (l @ r)),
            id2item := id2item s |` (- item_id ` set (items x))\<rparr>)"
proof -
  have reg: "registered (id2item s) x"
    using assms entries_inner_tl [of x C q j t p l r] by (auto simp: store_ok_def registered_def)
  have "length (items x) \<le> length (items (plug (C @ [Frame q j t p l r]) x))"
    by (rule length_items_plug)
  then have fuel: "2 * length (items x) \<le> 2 * length (items (root s))"
    using assms(2) by (simp add: plug_snoc)
  show ?thesis
    using RemoveItem_fuel_loop_correct(1) [rule_format, OF assms(2) refl _ _ reg fuel] assms(1)
    by (simp add: store_ok_def RemoveItem_def fst_set_entries)
qed

lemma RemoveItem_root:
  assumes "store_ok g s" "id2item s (item_id (root s)) = Some a"
  shows "RemoveItem s (item_id (root s)) =
     Inr (s\<lparr>root := Item (item_addr (root s)) (item_id (root s)) (item_text (root s)) None [],
            id2item := Map.empty\<rparr>)"
proof -
  obtain a0 j t p cs where T: "root s = Item a0 j t p cs" by (cases "root s")
  have a: "a = a0" using resolve_root [OF assms] T by simp
  have ok: "tree_ok (root s)" and tab: "Map.graph (id2item s) \<subseteq> set (entries (root s))"
    and full: "set (tl (entries (root s))) \<subseteq> Map.graph (id2item s)"
    using assms(1) by (simp_all add: store_ok_def)
  have p: "p = None" using ok T by (simp add: tree_ok_def)
  let ?M = "id2item s"
  let ?s1 = "s\<lparr>id2item := ?M(j := None)\<rparr>"
  define n where "n = 2 * length (concat (map items cs)) + 1"
  have T1: "root ?s1 = plug [] (Item a0 j t p cs)" using T by simp
  have tab1: "Map.graph (id2item ?s1) \<subseteq> set (entries (root ?s1))"
    using tab by (auto simp: graph_fun_upd_None)
  have dj: "j \<notin> fst ` (\<Union>c\<in>set cs. set (entries c))"
    using ok T by (simp add: tree_ok_def)
  have regs: "\<forall>c\<in>set cs. registered (id2item ?s1) c"
  proof
    fix c assume c: "c \<in> set cs"
    then have "set (entries c) \<subseteq> Map.graph ?M" using full T by auto
    moreover have "j \<notin> fst ` set (entries c)" using dj c by auto
    ultimately show "registered (id2item ?s1) c"
      by (auto simp: registered_def graph_fun_upd_None)
  qed
  have ok1: "tree_ok (root ?s1)" using ok by simp
  have fuel1: "2 * length (concat (map items cs)) + 1 \<le> n" by (simp add: n_def)
  have loop: "RemoveItem_loop n ?s1 a0 =
      Inr (?s1\<lparr>root := plug [] (Item a0 j t p []),
             id2item := id2item ?s1 |` (- fst ` (\<Union>c\<in>set cs. set (entries c)))\<rparr>)"
    using RemoveItem_fuel_loop_correct(2) [rule_format, OF T1 ok1 tab1 regs [rule_format] fuel1]
    by simp
  have emp: "(?M(j := None)) |` (- fst ` (\<Union>c\<in>set cs. set (entries c))) = Map.empty"
  proof
    fix k
    show "((?M(j := None)) |` (- fst ` (\<Union>c\<in>set cs. set (entries c)))) k = None"
    proof (cases "?M k")
      case None
      then show ?thesis by (simp add: restrict_map_def)
    next
      case (Some v)
      then have "(k, v) \<in> set (entries (root s))" using tab by (auto intro: in_graphI)
      then have "k = j \<or> k \<in> fst ` (\<Union>c\<in>set cs. set (entries c))"
        using T by force
      then show ?thesis by (auto simp: restrict_map_def)
    qed
  qed
  have fuel: "2 * length (items (root s)) = Suc n" using T by (simp add: n_def)
  show ?thesis
    unfolding RemoveItem_def fuel
    using assms(2) a T p loop emp by (simp add: unlink_def)
qed

lemma RemoveItem_total:
  assumes "store_ok g s"
  shows "\<exists>s'. RemoveItem s i = Inr s'"
proof (cases "id2item s i")
  case None
  then show ?thesis using RemoveItem_unresolved by blast
next
  case (Some a)
  show ?thesis
  proof (cases "i = item_id (root s)")
    case True
    then show ?thesis using RemoveItem_root [OF assms] Some by blast
  next
    case False
    from resolve_inner [OF assms Some False]
    obtain C q j t p l x r where T: "root s = plug C (Item q j t p (l @ x # r))"
      and x: "item_id x = i" "item_addr x = a" by blast
    show ?thesis using RemoveItem_plug [OF assms T] x by blast
  qed
qed

lemma RemoveItem_enough_fuel:
  assumes "store_ok g s" "2 * length (items (root s)) \<le> n"
  shows "RemoveItem_fuel n s i = RemoveItem s i"
proof -
  obtain s' where "RemoveItem s i = Inr s'" using RemoveItem_total [OF assms(1)] by blast
  then show ?thesis
    using RemoveItem_fuel_mono(1) [rule_format, OF assms(2), of s i "Inr s'"]
    by (simp add: RemoveItem_def)
qed

section \<open>The invariant\<close>

lemma store_ok_TreeView_new:
  assumes "TreeView_new g = (g', s)" "as_unsigned (g_next_id g) \<noteq> 4294967295"
  shows "store_ok g' s"
proof -
  have "as_unsigned (g_next_id g) < as_unsigned (next_id (g_next_id g))"
    using as_unsigned_next_id_less [OF assms(2)] by simp
  then show ?thesis
    using assms(1) by (auto simp: TreeView_new_def Let_def store_ok_def tree_ok_def)
qed

lemma store_ok_mono:
  "store_ok g s \<Longrightarrow> as_unsigned (g_next_id g) \<le> as_unsigned (g_next_id g') \<Longrightarrow>
   heap_next g \<le> heap_next g' \<Longrightarrow> store_ok g' s"
  by (fastforce simp: store_ok_def)

lemma store_ok_remove_inner:
  assumes "store_ok g s" "root s = plug C (Item q j t p (l @ x # r))"
  shows "store_ok g (s\<lparr>root := plug C (Item q j t p (l @ r)),
                 id2item := id2item s |` (- item_id ` set (items x))\<rparr>)"
proof -
  let ?T = "plug C (Item q j t p (l @ x # r))" and ?T' = "plug C (Item q j t p (l @ r))"
  let ?M = "id2item s" and ?M' = "id2item s |` (- item_id ` set (items x))"
  have ok: "tree_ok ?T" and tab: "Map.graph ?M \<subseteq> set (entries ?T)"
    and full: "set (tl (entries ?T)) \<subseteq> Map.graph ?M"
    and bnd: "\<forall>e\<in>set (entries ?T).
        as_unsigned (fst e) < as_unsigned (g_next_id g) \<and> snd e < heap_next g"
    using assms by (simp_all add: store_ok_def)
  have ok': "tree_ok ?T'" using ok by (rule tree_ok_remove_child)
  have tab': "Map.graph ?M' \<subseteq> set (entries ?T')"
    using table_remove_child [OF tab] by (simp add: fst_set_entries)
  have m: "mset (tl (entries ?T)) = mset (tl (entries ?T')) + mset (entries x)"
    by (simp add: mset_tl_entries_plug)
  have "distinct (map fst (tl (entries ?T)))"
    using ok by (simp add: tree_ok_def distinct_tl map_tl)
  from distinct_entries_split(3) [OF m this]
  have disj: "fst ` set (tl (entries ?T')) \<inter> fst ` set (entries x) = {}" .
  have sub: "set (tl (entries ?T')) \<subseteq> set (tl (entries ?T))"
    using mset_eq_setD [OF m [unfolded mset_append [symmetric]]] by auto
  have full': "set (tl (entries ?T')) \<subseteq> Map.graph ?M'"
  proof
    fix e assume e: "e \<in> set (tl (entries ?T'))"
    obtain k v where kv: "e = (k, v)" by (cases e)
    have "?M k = Some v" using e sub full kv by (auto dest: in_graphD)
    moreover have "k \<notin> item_id ` set (items x)"
      using disj e kv by (force simp: fst_set_entries)
    ultimately show "e \<in> Map.graph ?M'" using kv by (simp add: in_graphI)
  qed
  have "set (entries ?T') \<subseteq> set (entries ?T)" by (auto simp: set_entries_plug)
  then have bnd': "\<forall>e\<in>set (entries ?T').
      as_unsigned (fst e) < as_unsigned (g_next_id g) \<and> snd e < heap_next g"
    using bnd by blast
  show ?thesis using ok' tab' full' bnd' by (simp add: store_ok_def)
qed

lemma store_ok_RemoveItem:
  assumes "store_ok g s" "RemoveItem s i = Inr s'"
  shows "store_ok g s'"
proof (cases "id2item s i")
  case None
  then show ?thesis using assms RemoveItem_unresolved by simp
next
  case (Some a)
  show ?thesis
  proof (cases "i = item_id (root s)")
    case True
    have "tree_ok (root s)" using assms(1) by (simp add: store_ok_def)
    then have "store_ok g (s\<lparr>root := Item (item_addr (root s)) (item_id (root s)) (item_text (root s)) None [],
            id2item := Map.empty\<rparr>)"
      using assms(1) item_addr_plug_entries [of "root s"] by (auto simp: store_ok_def tree_ok_def)
    then show ?thesis using RemoveItem_root [OF assms(1)] Some True assms(2) by simp
  next
    case False
    from resolve_inner [OF assms(1) Some False]
    obtain C q j t p l x r where T: "root s = plug C (Item q j t p (l @ x # r))"
      and x: "item_id x = i" "item_addr x = a" by blast
    show ?thesis
      using RemoveItem_plug [OF assms(1) T] store_ok_remove_inner [OF assms(1) T] x assms(2) by simp
  qed
qed

lemma AddItem_parent_found:
  assumes "store_ok g s"
  shows "\<exists>C j t p cs.
     root s = plug C (Item (case id2item s parent_id of None \<Rightarrow> item_addr (root s) | Some q \<Rightarrow> q) j t p cs)"
proof (cases "id2item s parent_id")
  case None
  have "root s = plug [] (Item (item_addr (root s)) (item_id (root s)) (item_text (root s))
     (parent (root s)) (children (root s)))" by simp
  with None show ?thesis by (metis option.simps(4))
next
  case (Some q)
  then have "(parent_id, q) \<in> set (entries (root s))"
    using assms by (auto simp: store_ok_def intro: in_graphI)
  then obtain y where y: "y \<in> set (items (root s))" "item_addr y = q"
    using entry_item by blast
  then obtain C where "root s = plug C y" using items_plug_ex by blast
  moreover have "y = Item q (item_id y) (item_text y) (parent y) (children y)"
    using y(2) by (cases y) simp
  ultimately show ?thesis using Some by (metis option.simps(5))
qed

lemma AddItem_result:
  assumes "store_ok g s"
  shows "AddItem g s parent_id txt =
     Inr (g\<lparr>g_next_id := next_id (g_next_id g), heap_next := heap_next g + 1\<rparr>,
          s\<lparr>root := modify_item (parent_addr s parent_id)
                     (\<lambda>cs. cs @ [new_item g s parent_id txt]) (root s),
            id2item := (id2item s)(g_next_id g \<mapsto> heap_next g)\<rparr>,
          g_next_id g)"
proof -
  obtain C j t p cs where T: "root s = plug C (Item (parent_addr s parent_id) j t p cs)"
    using AddItem_parent_found [OF assms, of parent_id] by (auto simp: parent_addr_def)
  have "tree_ok (plug C (Item (parent_addr s parent_id) j t p cs))"
    using assms T by (simp add: store_ok_def)
  from tree_ok_find_hole [OF this]
  have "find_item (parent_addr s parent_id) (root s) = Some (Item (parent_addr s parent_id) j t p cs)"
    using T by simp
  then show ?thesis
    by (simp add: AddItem_def Let_def parent_addr_def new_item_def)
qed

lemma AddItem_proc:
  assumes "AddItem g s parent_id txt = Inr (g', s', i)"
  shows "i = g_next_id g \<and> g_next_id g' = next_id (g_next_id g) \<and>
         heap_next g' = heap_next g + 1"
  using assms by (auto simp: AddItem_def Let_def split: option.splits)

text \<open>
  \<open>AddItem\<close> keeps the tree and the table in order, whatever the counter is. The
  counter is beyond the new identifier unless it has just returned to \<open>0\<close>.
\<close>

lemma AddItem_structure:
  assumes "store_ok g s" "AddItem g s parent_id txt = Inr (g', s', i)"
  shows "tree_ok (root s') \<and>
         Map.graph (id2item s') \<subseteq> set (entries (root s')) \<and>
         set (tl (entries (root s'))) \<subseteq> Map.graph (id2item s') \<and>
         (\<forall>e\<in>set (entries (root s')).
            as_unsigned (fst e) \<le> as_unsigned (g_next_id g) \<and> snd e < heap_next g')"
proof -
  let ?q = "parent_addr s parent_id" and ?i = "g_next_id g" and ?a = "heap_next g"
  let ?t = "txt @ ''##'' @ show_id (g_next_id g)"
  let ?M = "id2item s"
  obtain C j t p cs where T: "root s = plug C (Item ?q j t p cs)"
    using AddItem_parent_found [OF assms(1), of parent_id] by (auto simp: parent_addr_def)
  let ?T = "plug C (Item ?q j t p cs)" and ?T' = "plug C (Item ?q j t p (cs @ [Item ?a ?i ?t (Some ?q) []]))"
  have ok: "tree_ok ?T" and tab: "Map.graph ?M \<subseteq> set (entries ?T)"
    and full: "set (tl (entries ?T)) \<subseteq> Map.graph ?M"
    and bnd: "\<forall>e\<in>set (entries ?T). as_unsigned (fst e) < as_unsigned ?i \<and> snd e < ?a"
    using assms(1) T by (simp_all add: store_ok_def)
  have fresh: "?i \<notin> fst ` set (entries ?T)" "?a \<notin> snd ` set (entries ?T)"
    using bnd by auto
  have q: "?q \<notin> snd ` set (frame_entries C)"
    using tree_ok_hole_addr [OF ok] by simp
  have mod: "modify_item ?q (\<lambda>cs. cs @ [new_item g s parent_id txt]) (root s) = ?T'"
    using modify_item_plug [OF q] T by (simp add: new_item_def)
  from assms(2) have res: "g' = g\<lparr>g_next_id := next_id ?i, heap_next := ?a + 1\<rparr>"
    "s' = s\<lparr>root := ?T', id2item := ?M(?i \<mapsto> ?a)\<rparr>"
    using AddItem_result [OF assms(1), of parent_id "txt"] mod by auto
  have ok': "tree_ok ?T'" using ok fresh by (rule tree_ok_add_child)
  have set': "set (entries ?T') = insert (?i, ?a) (set (entries ?T))"
    by (auto simp: set_entries_plug)
  have tab': "Map.graph (?M(?i \<mapsto> ?a)) \<subseteq> set (entries ?T')"
    using tab set' by (auto simp: graph_fun_upd_None)
  have m: "mset (tl (entries ?T')) = mset (tl (entries ?T)) + {#(?i, ?a)#}"
    by (simp add: mset_tl_entries_plug)
  have full': "set (tl (entries ?T')) \<subseteq> Map.graph (?M(?i \<mapsto> ?a))"
  proof
    fix e assume "e \<in> set (tl (entries ?T'))"
    then have "e \<in># mset (tl (entries ?T)) + {#(?i, ?a)#}" using m by (metis set_mset_mset)
    then consider "e = (?i, ?a)" | "e \<in> set (tl (entries ?T))" by auto
    then show "e \<in> Map.graph (?M(?i \<mapsto> ?a))"
    proof cases
      case 1
      then show ?thesis by simp
    next
      case 2
      then have "e \<in> Map.graph ?M" using full by blast
      moreover have "e \<in> set (entries ?T)" using 2 by (rule in_set_tl)
      then have "fst e \<noteq> ?i" using fresh(1) by (metis imageI)
      ultimately show ?thesis by (simp add: graph_fun_upd_None)
    qed
  qed
  have bnd': "\<forall>e\<in>set (entries ?T'). as_unsigned (fst e) \<le> as_unsigned ?i \<and> snd e < ?a + 1"
    using bnd set' by auto
  show ?thesis using res ok' tab' full' bnd' by simp
qed

lemma store_ok_AddItem:
  assumes "store_ok g s" "AddItem g s parent_id txt = Inr (g', s', i)"
    and "as_unsigned (g_next_id g) \<noteq> 4294967295"
  shows "store_ok g' s'"
proof -
  have "as_unsigned (g_next_id g') = as_unsigned (g_next_id g) + 1"
    using AddItem_proc [OF assms(2)] as_unsigned_next_id_less [OF assms(3)] by simp
  then show ?thesis
    using AddItem_structure [OF assms(1,2)] by (fastforce simp: store_ok_def)
qed

lemma TreeView_new_proc:
  assumes "TreeView_new g = (g', s)"
  shows "item_id (root s) = g_next_id g \<and> g_next_id g' = next_id (g_next_id g) \<and>
         heap_next g' = heap_next g + 1 \<and>
         id2item s (item_id (root s)) = Some (item_addr (root s))"
  using assms by (auto simp: TreeView_new_def Let_def)

lemma store_ok_selection:
  "store_ok g (SetSelectedItemId s i) = store_ok g s"
  "store_ok g (SetOnValueChanged s f) = store_ok g s"
  by (simp_all add: store_ok_def SetSelectedItemId_def SetOnValueChanged_def)

subsection \<open>The example\<close>

lemmas ex_defs = ex_ops_def ex_proc_def ex_tree_def ex_view_def ex_listening_def ex_new_def
  ex_cleared_def ex_seven_def ex_mixed_ops_def ui_click_def ui_idle_def ex_two_views_ops_def
  ex_second_def

lemmas eval_simps = start_def TreeView_new_def AddItem_def Let_def show_id_def dec_nat.simps
  next_id_def
  digit_def numeral_2_eq_2 numeral_3_eq_3 RemoveItem_def unlink_def eval_nat_numeral
  GetItemChildren_def GetRootItem_def GetSelectedItemId_def SetSelectedItemId_def
  SetOnValueChanged_def Draw_def activate_def highlight_def tree_node_def

lemma ex_run:
  "run ex_ops start = Inr \<lparr>proc = ex_proc, views = [ex_view], issued = [3, 2, 1, 0]\<rparr>"
  by (simp add: ex_defs eval_simps)


section \<open>Removing an item\<close>



section \<open>Adding an item\<close>



section \<open>The children query\<close>






section \<open>Runs of a process\<close>

subsection \<open>The identifiers given out\<close>

lemma first_ids_Suc: "first_ids (Suc n) = first_ids n @ [id_of_count n]"
  by (simp add: first_ids_def)

lemma length_first_ids [simp]: "length (first_ids n) = n"
  by (simp add: first_ids_def)





lemma issues_Cons: "issues (x # xs) = issues [x] + issues xs"
  by (cases x) simp_all

lemma counted_start: "counted start"
  by (simp add: counted_def start_def first_ids_def id_of_count_values)

lemma counted_unsigned:
  assumes "counted w" "length (issued w) < 4294967296"
  shows "as_unsigned (g_next_id (proc w)) = length (issued w)"
proof -
  have "length (issued w) mod 4294967296 = length (issued w)"
    using assms(2) by (rule mod_less)
  then show ?thesis using assms(1) by (simp add: counted_def as_unsigned_id_of_count)
qed

lemma step_counted:
  assumes "counted w" "step x w = Inr w'"
  shows "counted w' \<and> length (issued w') = length (issued w) + issues [x]"
proof (cases x)
  case NewTreeView
  obtain g s where n: "TreeView_new (proc w) = (g, s)" by (cases "TreeView_new (proc w)")
  then have w': "w' = \<lparr>proc = g, views = views w @ [s], issued = item_id (root s) # issued w\<rparr>"
    using assms(2) NewTreeView by simp
  show ?thesis
    using assms(1) TreeView_new_proc [OF n] w' NewTreeView
    by (simp add: counted_def first_ids_Suc next_id_id_of_count)
next
  case (AddItemOp k parent_id lbl)
  with assms(2) obtain g s i where
    a: "AddItem (proc w) (views w ! k) parent_id lbl = Inr (g, s, i)"
    and w': "w' = \<lparr>proc = g, views = (views w)[k := s], issued = i # issued w\<rparr>"
    by (auto split: sum.splits if_splits)
  show ?thesis
    using assms(1) AddItem_proc [OF a] w' AddItemOp
    by (simp add: counted_def first_ids_Suc next_id_id_of_count)
next
  case (RemoveItemOp k i)
  with assms(2) obtain s where w': "w' = w\<lparr>views := (views w)[k := s]\<rparr>"
    by (auto split: sum.splits if_splits)
  then show ?thesis using assms(1) RemoveItemOp by (simp add: counted_def)
qed



subsection \<open>The invariant along a run\<close>

lemma step_views_ok:
  assumes "views_ok w" "step x w = Inr w'"
    and "as_unsigned (g_next_id (proc w)) + issues [x] < 4294967296"
  shows "views_ok w'"
proof (cases x)
  case NewTreeView
  obtain g s where n: "TreeView_new (proc w) = (g, s)" by (cases "TreeView_new (proc w)")
  then have w': "w' = \<lparr>proc = g, views = views w @ [s], issued = item_id (root s) # issued w\<rparr>"
    using assms(2) NewTreeView by simp
  have u: "as_unsigned (g_next_id (proc w)) \<noteq> 4294967295" using assms(3) NewTreeView by simp
  have "store_ok g s" using n u by (rule store_ok_TreeView_new)
  moreover have "as_unsigned (g_next_id (proc w)) \<le> as_unsigned (g_next_id g)"
    using TreeView_new_proc [OF n] as_unsigned_next_id_less [OF u] by simp
  then have "\<forall>s'\<in>set (views w). store_ok g s'"
    using assms(1) TreeView_new_proc [OF n] by (auto simp: views_ok_def intro: store_ok_mono)
  ultimately show ?thesis using w' by (auto simp: views_ok_def)
next
  case (AddItemOp k parent_id lbl)
  with assms(2) have k: "k < length (views w)" by (auto split: if_splits)
  with assms(2) AddItemOp obtain g s i where
    a: "AddItem (proc w) (views w ! k) parent_id lbl = Inr (g, s, i)"
    and w': "w' = \<lparr>proc = g, views = (views w)[k := s], issued = i # issued w\<rparr>"
    by (auto split: sum.splits)
  have u: "as_unsigned (g_next_id (proc w)) \<noteq> 4294967295" using assms(3) AddItemOp by simp
  have "store_ok (proc w) (views w ! k)" using assms(1) k by (simp add: views_ok_def)
  then have "store_ok g s" using a u by (rule store_ok_AddItem)
  moreover have "as_unsigned (g_next_id (proc w)) \<le> as_unsigned (g_next_id g)"
    using AddItem_proc [OF a] as_unsigned_next_id_less [OF u] by simp
  then have "\<forall>s'\<in>set (views w). store_ok g s'"
    using assms(1) AddItem_proc [OF a] by (auto simp: views_ok_def intro: store_ok_mono)
  ultimately show ?thesis
    using w' set_update_subset_insert [of "views w" k s] by (auto simp: views_ok_def)
next
  case (RemoveItemOp k i)
  with assms(2) have k: "k < length (views w)" by (auto split: if_splits)
  with assms(2) RemoveItemOp obtain s where
    r: "RemoveItem (views w ! k) i = Inr s" and w': "w' = w\<lparr>views := (views w)[k := s]\<rparr>"
    by (auto split: sum.splits)
  have "store_ok (proc w) (views w ! k)" using assms(1) k by (simp add: views_ok_def)
  then have "store_ok (proc w) s" using r by (rule store_ok_RemoveItem)
  then show ?thesis
    using w' assms(1) set_update_subset_insert [of "views w" k s] by (auto simp: views_ok_def)
qed

lemma step_no_fault:
  assumes "views_ok w"
  shows "step x w \<noteq> Inl DanglingPointer \<and> step x w \<noteq> Inl OutOfFuel"
proof (cases x)
  case NewTreeView
  then show ?thesis by (simp split: prod.splits)
next
  case (AddItemOp k parent_id lbl)
  show ?thesis
  proof (cases "k < length (views w)")
    case True
    then have "store_ok (proc w) (views w ! k)" using assms by (simp add: views_ok_def)
    from AddItem_result [OF this, of parent_id lbl] show ?thesis using AddItemOp True by simp
  next
    case False
    then show ?thesis using AddItemOp by simp
  qed
next
  case (RemoveItemOp k i)
  show ?thesis
  proof (cases "k < length (views w)")
    case True
    then have "store_ok (proc w) (views w ! k)" using assms by (simp add: views_ok_def)
    from RemoveItem_total [OF this, of i] show ?thesis using RemoveItemOp True by auto
  next
    case False
    then show ?thesis using RemoveItemOp by simp
  qed
qed

text \<open>
  A step of a run that gives out fewer than \<open>4294967296\<close> identifiers in all.
\<close>

lemma step_world:
  assumes "views_ok w" "counted w" "length (issued w) + issues (x # xs) < 4294967296"
    and "step x w = Inr w1"
  shows "views_ok w1 \<and> counted w1 \<and> length (issued w1) + issues xs < 4294967296"
proof -
  have i: "length (issued w) + issues [x] + issues xs < 4294967296"
    using assms(3) issues_Cons [of x xs] by simp
  then have "length (issued w) < 4294967296" by linarith
  then have "as_unsigned (g_next_id (proc w)) = length (issued w)"
    using assms(2) counted_unsigned by blast
  then have "as_unsigned (g_next_id (proc w)) + issues [x] < 4294967296" using i by linarith
  then have "views_ok w1" using step_views_ok [OF assms(1,4)] by blast
  then show ?thesis using step_counted [OF assms(2,4)] i by simp
qed

lemma run_views_ok:
  "views_ok w \<Longrightarrow> counted w \<Longrightarrow> length (issued w) + issues ops < 4294967296 \<Longrightarrow>
   run ops w = Inr w' \<Longrightarrow> views_ok w'"
proof (induction ops arbitrary: w)
  case Nil
  then show ?case by simp
next
  case (Cons x xs)
  from Cons.prems(4) obtain w1 where s: "step x w = Inr w1" and r: "run xs w1 = Inr w'"
    by (auto split: sum.splits)
  from step_world [OF Cons.prems(1,2,3) s] Cons.IH [OF _ _ _ r] show ?case by blast
qed

lemma run_no_fault:
  "views_ok w \<Longrightarrow> counted w \<Longrightarrow> length (issued w) + issues ops < 4294967296 \<Longrightarrow>
   run ops w \<noteq> Inl DanglingPointer \<and> run ops w \<noteq> Inl OutOfFuel"
proof (induction ops arbitrary: w)
  case Nil
  then show ?case by simp
next
  case (Cons x xs)
  show ?case
  proof (cases "step x w")
    case (Inl e)
    then show ?thesis using step_no_fault [OF Cons.prems(1), of x] by auto
  next
    case (Inr w1)
    from step_world [OF Cons.prems(1,2,3) Inr] Cons.IH [of w1] show ?thesis using Inr by simp
  qed
qed

lemma views_ok_start: "views_ok start"
  by (simp add: views_ok_def start_def)

text \<open>
  Every tree view that a process can reach before it has given out \<open>4294967296\<close>
  identifiers satisfies the invariant, so the theorems that assume \<open>store_ok\<close>
  hold in every such view. \<open>SetSelectedItemId\<close>, \<open>SetOnValueChanged\<close> and \<open>Draw\<close>,
  which are not steps of a run, do not touch the tree or the table
  (\<open>store_ok_selection\<close> above, \<open>store_ok_Draw\<close> below).
\<close>

lemma reachable_store_ok:
  assumes "run ops start = Inr w" "s \<in> set (views w)" "issues ops < 4294967296"
  shows "store_ok (proc w) s"
proof -
  have "length (issued start) + issues ops < 4294967296"
    using assms(3) by (simp add: start_def)
  from run_views_ok [OF views_ok_start counted_start this assms(1)] assms(2)
  show ?thesis by (simp add: views_ok_def)
qed

subsection \<open>Uniqueness of the identifiers\<close>



subsection \<open>A run that uses up the counter\<close>





subsection \<open>The entry of the root\<close>

lemma AddItem_keeps_root_id:
  assumes "store_ok g s" "AddItem g s parent_id txt = Inr (g', s', i)"
  shows "item_id (root s') = item_id (root s) \<and> item_addr (root s') = item_addr (root s) \<and>
         id2item s' (item_id (root s)) = id2item s (item_id (root s))"
proof -
  have "as_unsigned (fst (item_id (root s), item_addr (root s))) < as_unsigned (g_next_id g)"
    using assms(1) root_entry_in [of "root s"] unfolding store_ok_def by blast
  then have "item_id (root s) \<noteq> g_next_id g" by auto
  then show ?thesis
    using AddItem_result [OF assms(1), of parent_id "txt"] assms(2)
    by (auto simp: modify_item_fields)
qed

lemma AddItem_keeps_root_entry:
  assumes "store_ok g s" "id2item s (item_id (root s)) = Some (item_addr (root s))"
    and "AddItem g s parent_id txt = Inr (g', s', i)"
  shows "id2item s' (item_id (root s')) = Some (item_addr (root s'))"
  using AddItem_keeps_root_id [OF assms(1,3)] assms(2) by simp

lemma RemoveItem_inner:
  assumes "store_ok g s" "id2item s i = Some a" "i \<noteq> item_id (root s)" "RemoveItem s i = Inr s'"
  shows "item_id (root s') = item_id (root s) \<and> item_addr (root s') = item_addr (root s) \<and>
         id2item s' (item_id (root s)) = id2item s (item_id (root s))"
proof -
  from resolve_inner [OF assms(1,2,3)]
  obtain C q j t p l x r where T: "root s = plug C (Item q j t p (l @ x # r))"
    and x: "item_id x = i" "item_addr x = a" by blast
  let ?T' = "plug C (Item q j t p (l @ r))"
  have s': "s' = s\<lparr>root := ?T', id2item := id2item s |` (- item_id ` set (items x))\<rparr>"
    using RemoveItem_plug [OF assms(1) T] x assms(4) by simp
  have f: "item_id ?T' = item_id (root s)" "item_addr ?T' = item_addr (root s)"
    using root_fields_plug [of C q j t p "l @ r" "l @ x # r"] T by simp_all
  have ok: "tree_ok (plug C (Item q j t p (l @ x # r)))" using assms(1) T by (simp add: store_ok_def)
  have "item_id ?T' \<in> item_id ` set (items ?T')" using items_self by blast
  then have "item_id (root s) \<notin> item_id ` set (items x)"
    using ids_not_in_removed [OF ok] f(1) by auto
  then show ?thesis using s' f by simp
qed

lemma RemoveItem_keeps_root_entry:
  assumes "store_ok g s" "id2item s (item_id (root s)) = Some (item_addr (root s))"
    and "i \<noteq> item_id (root s)" "RemoveItem s i = Inr s'"
  shows "id2item s' (item_id (root s')) = Some (item_addr (root s'))"
proof (cases "id2item s i")
  case None
  then show ?thesis using assms RemoveItem_unresolved by simp
next
  case (Some a)
  from RemoveItem_inner [OF assms(1) Some assms(3,4)] assms(2) show ?thesis by simp
qed

lemma RemoveItem_root_unregistered:
  assumes "store_ok g s" "RemoveItem s i = Inr s'"
    and "i = item_id (root s) \<or> id2item s (item_id (root s)) = None"
  shows "id2item s' (item_id (root s')) = None"
proof (cases "id2item s i")
  case None
  then have "s' = s" using assms(2) RemoveItem_unresolved by simp
  then show ?thesis using assms(3) None by auto
next
  case (Some a)
  show ?thesis
  proof (cases "i = item_id (root s)")
    case True
    then show ?thesis using RemoveItem_root [OF assms(1)] Some assms(2) by auto
  next
    case False
    from RemoveItem_inner [OF assms(1) Some False assms(2)] assms(3) False show ?thesis by simp
  qed
qed

lemma step_root_registered:
  assumes "views_ok w" "root_registered v w" "\<not> removes_root v x w" "step x w = Inr w'"
  shows "root_registered v w'"
proof (cases x)
  case NewTreeView
  obtain g s where n: "TreeView_new (proc w) = (g, s)" by (cases "TreeView_new (proc w)")
  then have w': "w' = \<lparr>proc = g, views = views w @ [s], issued = item_id (root s) # issued w\<rparr>"
    using assms(4) NewTreeView by simp
  show ?thesis
    using assms(2) TreeView_new_proc [OF n] w'
    by (auto simp: root_registered_def nth_append)
next
  case (AddItemOp k parent_id lbl)
  with assms(4) have k: "k < length (views w)" by (auto split: if_splits)
  with assms(4) AddItemOp obtain g s i where
    a: "AddItem (proc w) (views w ! k) parent_id lbl = Inr (g, s, i)"
    and w': "w' = \<lparr>proc = g, views = (views w)[k := s], issued = i # issued w\<rparr>"
    by (auto split: sum.splits)
  show ?thesis
  proof (cases "v = k")
    case True
    have "store_ok (proc w) (views w ! k)" using assms(1) k by (simp add: views_ok_def)
    moreover have "id2item (views w ! k) (item_id (root (views w ! k))) =
        Some (item_addr (root (views w ! k)))"
      using assms(2) k True by (simp add: root_registered_def)
    ultimately have "id2item s (item_id (root s)) = Some (item_addr (root s))"
      using a by (rule AddItem_keeps_root_entry)
    then show ?thesis using w' True k by (simp add: root_registered_def)
  next
    case False
    then show ?thesis using w' assms(2) by (simp add: root_registered_def)
  qed
next
  case (RemoveItemOp k i)
  with assms(4) have k: "k < length (views w)" by (auto split: if_splits)
  with assms(4) RemoveItemOp obtain s where
    r: "RemoveItem (views w ! k) i = Inr s" and w': "w' = w\<lparr>views := (views w)[k := s]\<rparr>"
    by (auto split: sum.splits)
  show ?thesis
  proof (cases "v = k")
    case True
    have i: "i \<noteq> item_id (root (views w ! k))"
      using assms(3) RemoveItemOp k True by (simp add: GetRootItem_def)
    have "store_ok (proc w) (views w ! k)" using assms(1) k by (simp add: views_ok_def)
    moreover have "id2item (views w ! k) (item_id (root (views w ! k))) =
        Some (item_addr (root (views w ! k)))"
      using assms(2) k True by (simp add: root_registered_def)
    ultimately have "id2item s (item_id (root s)) = Some (item_addr (root s))"
      using i r by (rule RemoveItem_keeps_root_entry)
    then show ?thesis using w' True k by (simp add: root_registered_def)
  next
    case False
    then show ?thesis using w' assms(2) by (simp add: root_registered_def)
  qed
qed

lemma step_root_unregistered:
  assumes "views_ok w" "step x w = Inr w'"
    and "removes_root v x w \<or> root_unregistered v w"
  shows "root_unregistered v w'"
proof (cases x)
  case NewTreeView
  obtain g s where n: "TreeView_new (proc w) = (g, s)" by (cases "TreeView_new (proc w)")
  then have w': "w' = \<lparr>proc = g, views = views w @ [s], issued = item_id (root s) # issued w\<rparr>"
    using assms(2) NewTreeView by simp
  show ?thesis
    using assms(3) NewTreeView w' by (auto simp: root_unregistered_def nth_append)
next
  case (AddItemOp k parent_id lbl)
  with assms(2) have k: "k < length (views w)" by (auto split: if_splits)
  with assms(2) AddItemOp obtain g s i where
    a: "AddItem (proc w) (views w ! k) parent_id lbl = Inr (g, s, i)"
    and w': "w' = \<lparr>proc = g, views = (views w)[k := s], issued = i # issued w\<rparr>"
    by (auto split: sum.splits)
  have u: "root_unregistered v w" using assms(3) AddItemOp by simp
  show ?thesis
  proof (cases "v = k")
    case True
    have "store_ok (proc w) (views w ! k)" using assms(1) k by (simp add: views_ok_def)
    from AddItem_keeps_root_id [OF this a] u True w' k show ?thesis
      by (simp add: root_unregistered_def)
  next
    case False
    then show ?thesis using w' u by (simp add: root_unregistered_def)
  qed
next
  case (RemoveItemOp k i)
  with assms(2) have k: "k < length (views w)" by (auto split: if_splits)
  with assms(2) RemoveItemOp obtain s where
    r: "RemoveItem (views w ! k) i = Inr s" and w': "w' = w\<lparr>views := (views w)[k := s]\<rparr>"
    by (auto split: sum.splits)
  show ?thesis
  proof (cases "v = k")
    case True
    have "store_ok (proc w) (views w ! k)" using assms(1) k by (simp add: views_ok_def)
    moreover have "i = item_id (root (views w ! k)) \<or>
        id2item (views w ! k) (item_id (root (views w ! k))) = None"
      using assms(3) RemoveItemOp True by (auto simp: GetRootItem_def root_unregistered_def)
    ultimately have "id2item s (item_id (root s)) = None"
      using r RemoveItem_root_unregistered by blast
    then show ?thesis using w' True k by (simp add: root_unregistered_def)
  next
    case False
    then have "root_unregistered v w" using assms(3) RemoveItemOp by auto
    then show ?thesis using w' False by (simp add: root_unregistered_def)
  qed
qed

lemma run_root_registered:
  "views_ok w \<Longrightarrow> counted w \<Longrightarrow> length (issued w) + issues ops < 4294967296 \<Longrightarrow>
   root_registered v w \<Longrightarrow> root_kept v ops w \<Longrightarrow> run ops w = Inr w' \<Longrightarrow>
   root_registered v w'"
proof (induction ops arbitrary: w)
  case Nil
  then show ?case by simp
next
  case (Cons x xs)
  from Cons.prems(6) obtain w1 where s: "step x w = Inr w1" and r: "run xs w1 = Inr w'"
    by (auto split: sum.splits)
  have "root_registered v w1"
    using Cons.prems(1,4,5) s step_root_registered by auto
  moreover have "root_kept v xs w1" using Cons.prems(5) s by simp
  ultimately show ?case
    using step_world [OF Cons.prems(1,2,3) s] Cons.IH [OF _ _ _ _ _ r] by blast
qed

lemma run_root_unregistered:
  "views_ok w \<Longrightarrow> counted w \<Longrightarrow> length (issued w) + issues ops < 4294967296 \<Longrightarrow>
   root_unregistered v w \<Longrightarrow> run ops w = Inr w' \<Longrightarrow> root_unregistered v w'"
proof (induction ops arbitrary: w)
  case Nil
  then show ?case by simp
next
  case (Cons x xs)
  from Cons.prems(5) obtain w1 where s: "step x w = Inr w1" and r: "run xs w1 = Inr w'"
    by (auto split: sum.splits)
  have "root_unregistered v w1"
    using Cons.prems(1,4) s step_root_unregistered by blast
  then show ?case
    using step_world [OF Cons.prems(1,2,3) s] Cons.IH [OF _ _ _ _ r] by blast
qed

lemma run_root_removed:
  "views_ok w \<Longrightarrow> counted w \<Longrightarrow> length (issued w) + issues ops < 4294967296 \<Longrightarrow>
   \<not> root_kept v ops w \<Longrightarrow> run ops w = Inr w' \<Longrightarrow> root_unregistered v w'"
proof (induction ops arbitrary: w)
  case Nil
  then show ?case by simp
next
  case (Cons x xs)
  from Cons.prems(5) obtain w1 where s: "step x w = Inr w1" and r: "run xs w1 = Inr w'"
    by (auto split: sum.splits)
  note w1 = step_world [OF Cons.prems(1,2,3) s]
  show ?case
  proof (cases "removes_root v x w")
    case True
    then have "root_unregistered v w1"
      using Cons.prems(1) s step_root_unregistered by blast
    then show ?thesis using w1 r run_root_unregistered by blast
  next
    case False
    then have "\<not> root_kept v xs w1" using Cons.prems(4) s by simp
    then show ?thesis using w1 Cons.IH [OF _ _ _ _ r] by blast
  qed
qed

text \<open>
  Claim C5, as the code has it. A run of a process that gives out fewer than
  \<open>4294967296\<close> identifiers, so that the counter has not returned to \<open>0\<close>, does not
  read through a dangling pointer and does not run out of fuel. After such a run,
  in every tree view: no item occurs twice among the items reachable from the root
  (no address and no identifier does), every child points back to its parent and
  the root has no parent; every entry of the table is a reachable item at its
  address, and every reachable item other than the root is in the table. The root
  item itself is never taken out of the tree view, of which it is a member, but
  nothing guards its entry in the table: the table of a tree view is exactly the
  set of its reachable items if \<open>RemoveItem\<close> was never called on this tree view
  with the identifier of its root, whatever was asked of the other tree views, and
  it has no entry for the root if there was such a call.
\<close>

theorem store_structure_after_run:
  assumes "issues ops < 4294967296"
  shows "run ops start \<noteq> Inl DanglingPointer \<and> run ops start \<noteq> Inl OutOfFuel \<and>
   (\<forall>w v. run ops start = Inr w \<and> v < length (views w) \<longrightarrow>
      distinct (map item_addr (items (root (views w ! v)))) \<and>
      distinct (map item_id (items (root (views w ! v)))) \<and>
      parents_ok (root (views w ! v)) \<and> parent (root (views w ! v)) = None \<and>
      Map.graph (id2item (views w ! v)) \<subseteq> set (entries (root (views w ! v))) \<and>
      set (tl (entries (root (views w ! v)))) \<subseteq> Map.graph (id2item (views w ! v)) \<and>
      (root_kept v ops start \<longrightarrow>
         Map.graph (id2item (views w ! v)) = set (entries (root (views w ! v)))) \<and>
      (\<not> root_kept v ops start \<longrightarrow>
         id2item (views w ! v) (GetRootItem (views w ! v)) = None))"
proof (intro conjI allI impI)
  have b: "length (issued start) + issues ops < 4294967296"
    using assms by (simp add: start_def)
  show "run ops start \<noteq> Inl DanglingPointer" "run ops start \<noteq> Inl OutOfFuel"
    using run_no_fault [OF views_ok_start counted_start b] by simp_all
  fix w v assume a: "run ops start = Inr w \<and> v < length (views w)"
  let ?s = "views w ! v"
  have "views_ok w"
    using run_views_ok [OF views_ok_start counted_start b] a by blast
  then have inv: "store_ok (proc w) ?s" using a by (simp add: views_ok_def)
  then show "distinct (map item_addr (items (root ?s)))" "distinct (map item_id (items (root ?s)))"
    "parents_ok (root ?s)" "parent (root ?s) = None"
    "Map.graph (id2item ?s) \<subseteq> set (entries (root ?s))"
    "set (tl (entries (root ?s))) \<subseteq> Map.graph (id2item ?s)"
    by (simp_all add: store_ok_def tree_ok_def map_fst_entries map_snd_entries)
  show "Map.graph (id2item ?s) = set (entries (root ?s))" if "root_kept v ops start"
  proof -
    have "root_registered v start" by (simp add: root_registered_def start_def)
    from run_root_registered [OF views_ok_start counted_start b this that] a
    have "id2item ?s (item_id (root ?s)) = Some (item_addr (root ?s))"
      by (simp add: root_registered_def)
    then have "(item_id (root ?s), item_addr (root ?s)) \<in> Map.graph (id2item ?s)"
      by (rule in_graphI)
    moreover have "set (entries (root ?s)) =
        insert (item_id (root ?s), item_addr (root ?s)) (set (tl (entries (root ?s))))"
      by (cases "root ?s") simp
    ultimately show ?thesis using inv by (auto simp: store_ok_def)
  qed
  show "id2item ?s (GetRootItem ?s) = None" if "\<not> root_kept v ops start"
    using run_root_removed [OF views_ok_start counted_start b that] a
    by (simp add: root_unregistered_def GetRootItem_def)
qed

text \<open>
  The run of the example, and a run with two tree views, of which the first
  removes its root: the table of the second still holds its root.
\<close>

theorem store_structure_after_run_witness:
  "issues ex_ops < 4294967296 \<and>
   run ex_ops start = Inr \<lparr>proc = ex_proc, views = [ex_view], issued = [3, 2, 1, 0]\<rparr> \<and>
   root_kept 0 ex_ops start \<and>
   Map.graph (id2item ex_view) = set (entries (root ex_view)) \<and>
   entries (root ex_view) = [(0, 0), (1, 1), (2, 2), (3, 3)] \<and>
   distinct (map item_addr (items (root ex_view))) \<and>
   issues ex_two_views_ops < 4294967296 \<and>
   run ex_two_views_ops start =
     Inr \<lparr>proc = \<lparr>g_next_id = 3, heap_next = 3\<rparr>, views = [ex_cleared, ex_second],
          issued = [2, 1, 0]\<rparr> \<and>
   \<not> root_kept 0 ex_two_views_ops start \<and> root_kept 1 ex_two_views_ops start \<and>
   id2item ex_cleared (GetRootItem ex_cleared) = None \<and>
   Map.graph (id2item ex_second) = set (entries (root ex_second)) \<and>
   entries (root ex_second) = [(1, 1), (2, 2)]"
proof -
  have i: "issues ex_ops < 4294967296" "issues ex_two_views_ops < 4294967296"
    by (simp_all add: ex_defs)
  have k: "root_kept 0 ex_ops start" "\<not> root_kept 0 ex_two_views_ops start"
    "root_kept 1 ex_two_views_ops start"
    by (simp_all add: ex_defs eval_simps)
  have e: "entries (root ex_view) = [(0, 0), (1, 1), (2, 2), (3, 3)]"
    "entries (root ex_second) = [(1, 1), (2, 2)]" by (simp_all add: ex_defs)
  have r: "run ex_two_views_ops start =
     Inr \<lparr>proc = \<lparr>g_next_id = 3, heap_next = 3\<rparr>, views = [ex_cleared, ex_second],
          issued = [2, 1, 0]\<rparr>"
    by (simp add: ex_defs eval_simps)
  have 1: "Map.graph (id2item ex_view) = set (entries (root ex_view)) \<and>
      distinct (map item_addr (items (root ex_view)))"
    using store_structure_after_run [OF i(1)] ex_run k(1) by simp
  have 2: "Map.graph (id2item ex_second) = set (entries (root ex_second))"
    using store_structure_after_run [OF i(2)] r k(3) by fastforce
  have 3: "id2item ex_cleared (GetRootItem ex_cleared) = None"
    using store_structure_after_run [OF i(2)] r k(2) by fastforce
  show ?thesis using i ex_run k e r 1 2 3 by simp
qed

text \<open>
  Claim C5 as stated fails: \<open>RemoveItem\<close> accepts the identifier of the root, and
  erases its entry.
\<close>

theorem root_entry_erased_counterexample:
  "run [NewTreeView, RemoveItemOp 0 0] start =
     Inr \<lparr>proc = \<lparr>g_next_id = 1, heap_next = 1\<rparr>, views = [ex_cleared], issued = [0]\<rparr> \<and>
   GetRootItem ex_cleared = 0 \<and> id2item ex_cleared (GetRootItem ex_cleared) = None \<and>
   run [NewTreeView] start =
     Inr \<lparr>proc = \<lparr>g_next_id = 1, heap_next = 1\<rparr>, views = [ex_new], issued = [0]\<rparr> \<and>
   GetRootItem ex_new = 0 \<and> RemoveItem ex_new (GetRootItem ex_new) = Inr ex_cleared"
  by (simp add: ex_defs eval_simps)

section \<open>Selection\<close>

lemma GetSelectedItemId_Set:
  "GetSelectedItemId (SetSelectedItemId s i) = (if i < 0 then GetRootItem s else i)"
  by (simp add: GetSelectedItemId_def SetSelectedItemId_def GetRootItem_def)

lemma GetSelectedItemId_new:
  "GetSelectedItemId (snd (TreeView_new g)) = GetRootItem (snd (TreeView_new g))"
  by (simp add: GetSelectedItemId_def TreeView_new_def GetRootItem_def Let_def)

text \<open>
  Claim C6, as the code has it. \<open>SetSelectedItemId\<close> stores any identifier, and
  \<open>GetSelectedItemId\<close> returns a stored identifier that is not negative as it is,
  whether an item has it or not. A negative one is read as "no selection": the
  answer is the identifier of the root. A tree view just constructed answers with
  the identifier of its root.
\<close>

theorem selected_id_roundtrip:
  "selected_id (SetSelectedItemId s i) = i \<and>
   GetSelectedItemId (SetSelectedItemId s i) = (if i < 0 then GetRootItem s else i) \<and>
   GetSelectedItemId (snd (TreeView_new g)) = GetRootItem (snd (TreeView_new g))"
  by (simp add: GetSelectedItemId_Set GetSelectedItemId_new)
     (simp add: SetSelectedItemId_def)

text \<open>
  Claim C6 as stated fails for a negative identifier: after
  \<open>SetSelectedItemId (- 5)\<close> on a new tree view, whose root has the identifier 0,
  \<open>GetSelectedItemId\<close> answers 0.
\<close>

theorem negative_selection_counterexample:
  "GetSelectedItemId
     (SetSelectedItemId (snd (TreeView_new \<lparr>g_next_id = 0, heap_next = 0\<rparr>)) (- 5)) = 0 \<and>
   GetSelectedItemId
     (SetSelectedItemId (snd (TreeView_new \<lparr>g_next_id = 0, heap_next = 0\<rparr>)) (- 5)) \<noteq> - 5"
  by (simp add: GetSelectedItemId_def SetSelectedItemId_def TreeView_new_def Let_def)

section \<open>Drawing a frame\<close>

lemma walk_state_step:
  "walk_state (activate ui item (tree_node item (highlight item w))) =
     (if IsItemClicked ui (item_text item) \<and> children item = []
      then select_item item (walk_state w) else walk_state w)"
  by (cases w)
     (auto simp: walk_state_def activate_def tree_node_def highlight_def select_item_def)

lemma walk_state_Draw:
  "walk_state (DrawItem ui item w) = fold select_item (activated ui [item]) (walk_state w)"
  "walk_state (DrawItems ui cs w) = fold select_item (activated ui cs) (walk_state w)"
proof (induction ui item w and ui cs w rule: DrawItem_DrawItems.induct)
  case (1 ui a i t p cs w)
  show ?case
  proof (cases "TreeNodeEx ui t (cs = [])")
    case True
    then show ?thesis
      using "1.IH" [OF refl refl True] walk_state_step [of ui "Item a i t p cs" w]
      by (simp add: activated_def Let_def)
  next
    case False
    then show ?thesis
      using walk_state_step [of ui "Item a i t p cs" w] by (simp add: activated_def Let_def)
  qed
next
  case (2 ui w)
  then show ?case by (simp add: activated_def)
next
  case (3 ui c cs w)
  have "activated ui (c # cs) = activated ui [c] @ activated ui cs"
    by (simp add: activated_def)
  then show ?case using 3 by simp
qed

lemma walk_trace_step:
  "filter is_Notify (walk_trace (activate ui item (tree_node item (highlight item w)))) =
     filter is_Notify (walk_trace w)"
  by (cases w) (auto simp: walk_trace_def activate_def tree_node_def highlight_def)

lemma walk_trace_Draw:
  "filter is_Notify (walk_trace (DrawItem ui item w)) = filter is_Notify (walk_trace w)"
  "filter is_Notify (walk_trace (DrawItems ui cs w)) = filter is_Notify (walk_trace w)"
proof (induction ui item w and ui cs w rule: DrawItem_DrawItems.induct)
  case (1 ui a i t p cs w)
  show ?case
  proof (cases "TreeNodeEx ui t (cs = [])")
    case True
    then show ?thesis
      using "1.IH" [OF refl refl True] walk_trace_step [of ui "Item a i t p cs" w]
      by (simp add: Let_def)
  next
    case False
    then show ?thesis
      using walk_trace_step [of ui "Item a i t p cs" w] by (simp add: Let_def)
  qed
next
  case (2 ui w)
  then show ?case by simp
next
  case (3 ui c cs w)
  then show ?case by simp
qed

lemma fold_select:
  "fold select_item acts (s, ns) =
     (if acts = [] then (s, ns) else (s\<lparr>selected_id := item_id (last acts)\<rparr>, Some (last acts)))"
proof (induction acts rule: rev_induct)
  case Nil
  then show ?case by simp
next
  case (snoc x xs)
  then show ?case by (simp add: select_item_def)
qed

lemma visited_items:
  "set (visited ui item) \<subseteq> set (items item)"
  "set (visiteds ui cs) \<subseteq> (\<Union>c\<in>set cs. set (items c))"
  by (induction ui item and ui cs rule: visited_visiteds.induct) auto

lemma activated_items: "set (activated ui cs) \<subseteq> (\<Union>c\<in>set cs. set (items c))"
  using visited_items(2) [of ui cs] by (auto simp: activated_def)

lemma activated_leaf:
  "it \<in> set (activated ui cs) \<Longrightarrow> IsItemClicked ui (item_text it) \<and> children it = []"
  by (simp add: activated_def)

lemma activated_last:
  assumes "activated ui cs \<noteq> []"
  shows "last (activated ui cs) \<in> (\<Union>c\<in>set cs. set (items c))"
    and "IsItemClicked ui (item_text (last (activated ui cs)))"
    and "children (last (activated ui cs)) = []"
proof -
  have l: "last (activated ui cs) \<in> set (activated ui cs)" using assms by (rule last_in_set)
  then show "last (activated ui cs) \<in> (\<Union>c\<in>set cs. set (items c))"
    using activated_items [of ui cs] by blast
  show "IsItemClicked ui (item_text (last (activated ui cs)))"
    "children (last (activated ui cs)) = []"
    using activated_leaf [OF l] by simp_all
qed

lemma walk_result:
  assumes "DrawItems ui cs (s, None, []) = (sw, new_selection, tr)"
  shows "filter is_Notify tr = []"
    and "(sw, new_selection) =
      (if activated ui cs = [] then (s, None)
       else (s\<lparr>selected_id := item_id (last (activated ui cs))\<rparr>, Some (last (activated ui cs))))"
proof -
  show "filter is_Notify tr = []"
    using walk_trace_Draw(2) [of ui cs "(s, None, [])"] assms by (simp add: walk_trace_def)
  show "(sw, new_selection) =
      (if activated ui cs = [] then (s, None)
       else (s\<lparr>selected_id := item_id (last (activated ui cs))\<rparr>, Some (last (activated ui cs))))"
    using walk_state_Draw(2) [of ui cs "(s, None, [])"] assms fold_select [of "activated ui cs" s None]
    by (simp add: walk_state_def)
qed

lemma Draw_result:
  assumes "DrawItems ui (children (root s)) (s, None, []) = (sw, new_selection, tr)"
  shows "Draw ui s =
     (sw, if activated ui (children (root s)) = [] then NONE else REDRAW,
      tr @ (if activated ui (children (root s)) \<noteq> [] \<and> on_value_changed s
            then [Notify (item_text (last (activated ui (children (root s)))))
                    (item_id (last (activated ui (children (root s)))))]
            else []))"
  using walk_result(2) [OF assms] assms by (auto simp: Draw_def split: if_splits)

lemma store_ok_Draw: "store_ok g (fst (Draw ui s)) = store_ok g s"
proof -
  obtain sw ns tr where w: "DrawItems ui (children (root s)) (s, None, []) = (sw, ns, tr)"
    by (metis prod_cases3)
  show ?thesis using Draw_result [OF w] walk_result(2) [OF w]
    by (auto simp: store_ok_def split: if_splits)
qed

text \<open>
  Claim C1, as the code has it. A pass is the walk over the children of the root,
  from the state of the tree view with no new selection and no effect yet, and
  then the call of the listener. The walk calls no listener. A leaf that is
  activated is recorded as the new selection, and its identifier is stored in
  \<open>selected_id\<close> at once, during the walk: when the walk ends, \<open>selected_id\<close> and the
  new selection are those of the leaf activated last. After the walk the
  listener, if one is registered, is called once, with the text and the
  identifier of that leaf, and the result is \<open>REDRAW\<close>. When the pass activates no
  leaf the state is unchanged, no listener is called and the result is \<open>NONE\<close>.
\<close>

theorem listener_after_walk:
  assumes "DrawItems ui (children (root s)) (s, None, []) = (sw, new_selection, tr)"
  shows "let acts = activated ui (children (root s)) in
     filter is_Notify tr = [] \<and>
     (sw, new_selection) =
       (if acts = [] then (s, None)
        else (s\<lparr>selected_id := item_id (last acts)\<rparr>, Some (last acts))) \<and>
     Draw ui s =
       (sw, if acts = [] then NONE else REDRAW,
        tr @ (if acts \<noteq> [] \<and> on_value_changed s
              then [Notify (item_text (last acts)) (item_id (last acts))] else [])) \<and>
     (\<forall>item s0 ns0 tr0.
        children item = [] \<and> IsItemClicked ui (item_text item) \<longrightarrow>
        walk_state (DrawItem ui item (s0, ns0, tr0)) =
          (s0\<lparr>selected_id := item_id item\<rparr>, Some item))"
proof -
  have "walk_state (DrawItem ui item (s0, ns0, tr0)) = (s0\<lparr>selected_id := item_id item\<rparr>, Some item)"
    if "children item = [] \<and> IsItemClicked ui (item_text item)" for item s0 ns0 tr0
  proof -
    have "activated ui [item] = [item]" using that by (cases item) (simp add: activated_def)
    then show ?thesis
      using walk_state_Draw(1) [of ui item "(s0, ns0, tr0)"]
      by (simp add: walk_state_def select_item_def)
  qed
  then show ?thesis
    using walk_result [OF assms] Draw_result [OF assms] by (simp add: Let_def)
qed

text \<open>
  A click on the leaf \<open>B\<close>, and a pass without a click, with a listener registered.
\<close>

theorem listener_after_walk_witness:
  "DrawItems (ui_click ''B##2'') (children (root ex_listening)) (ex_listening, None, []) =
     (ex_listening\<lparr>selected_id := 2\<rparr>, Some (Item 2 2 ''B##2'' (Some 1) []),
      [TreeNode ''A##1'' False, TreeNode ''B##2'' True, TreeNode ''C##3'' True]) \<and>
   Draw (ui_click ''B##2'') ex_listening =
     (ex_listening\<lparr>selected_id := 2\<rparr>, REDRAW,
      [TreeNode ''A##1'' False, TreeNode ''B##2'' True, TreeNode ''C##3'' True,
       Notify ''B##2'' 2]) \<and>
   Draw ui_idle ex_listening =
     (ex_listening, NONE,
      [TreeNode ''A##1'' False, TreeNode ''B##2'' True, Highlight 3, TreeNode ''C##3'' True])"
proof -
  have h: "DrawItems (ui_click ''B##2'') (children (root ex_listening)) (ex_listening, None, []) =
     (ex_listening\<lparr>selected_id := 2\<rparr>, Some (Item 2 2 ''B##2'' (Some 1) []),
      [TreeNode ''A##1'' False, TreeNode ''B##2'' True, TreeNode ''C##3'' True])"
    by (simp add: ex_defs eval_simps)
  have a: "activated (ui_click ''B##2'') (children (root ex_listening)) =
      [Item 2 2 ''B##2'' (Some 1) []]"
    by (simp add: activated_def ex_defs eval_simps)
  have i: "Draw ui_idle ex_listening =
     (ex_listening, NONE,
      [TreeNode ''A##1'' False, TreeNode ''B##2'' True, Highlight 3, TreeNode ''C##3'' True])"
    by (simp add: ex_defs eval_simps)
  have l: "on_value_changed ex_listening" by (simp add: ex_defs eval_simps)
  show ?thesis using listener_after_walk [OF h] h a i l by (simp add: Let_def)
qed

text \<open>
  Claim C1 as stated fails: the selection is committed while the walk is in
  progress. In the example \<open>C\<close> is selected. A click on \<open>B\<close> stores 2 in
  \<open>selected_id\<close> when \<open>B\<close> is drawn; \<open>C\<close>, drawn after \<open>B\<close> in the same pass, is then
  drawn without the highlight that it has in a pass without a click.
\<close>

theorem selection_committed_mid_walk_counterexample:
  "selected_id ex_listening = 3 \<and>
   DrawItems (ui_click ''B##2'') [Item 2 2 ''B##2'' (Some 1) []] (ex_listening, None, []) =
     (ex_listening\<lparr>selected_id := 2\<rparr>, Some (Item 2 2 ''B##2'' (Some 1) []),
      [TreeNode ''B##2'' True]) \<and>
   snd (snd (Draw (ui_click ''B##2'') ex_listening)) =
     [TreeNode ''A##1'' False, TreeNode ''B##2'' True, TreeNode ''C##3'' True,
      Notify ''B##2'' 2] \<and>
   snd (snd (Draw ui_idle ex_listening)) =
     [TreeNode ''A##1'' False, TreeNode ''B##2'' True, Highlight 3, TreeNode ''C##3'' True]"
  by (simp add: ex_defs eval_simps)

text \<open>
  Claim C8. A pass changes \<open>selected_id\<close> only to the identifier of an item
  without children that was drawn and that ImGui reports as clicked. So in a pass
  in which every item that ImGui reports as clicked has children, \<open>Draw\<close> leaves
  the state as it is, and with it the answer of \<open>GetSelectedItemId\<close>.
\<close>

theorem nonleaf_click_keeps_selection:
  "(selected_id (fst (Draw ui s)) = selected_id s \<or>
    (\<exists>it\<in>set (descendants (root s)).
       children it = [] \<and> IsItemClicked ui (item_text it) \<and>
       selected_id (fst (Draw ui s)) = item_id it)) \<and>
   ((\<forall>it\<in>set (descendants (root s)). IsItemClicked ui (item_text it) \<longrightarrow> children it \<noteq> []) \<longrightarrow>
    fst (Draw ui s) = s \<and> GetSelectedItemId (fst (Draw ui s)) = GetSelectedItemId s)"
proof -
  obtain sw ns tr where w: "DrawItems ui (children (root s)) (s, None, []) = (sw, ns, tr)"
    by (metis prod_cases3)
  let ?acts = "activated ui (children (root s))"
  have d: "fst (Draw ui s) = (if ?acts = [] then s else s\<lparr>selected_id := item_id (last ?acts)\<rparr>)"
    using Draw_result [OF w] walk_result(2) [OF w] by (simp split: if_splits)
  have l: "last ?acts \<in> set (descendants (root s)) \<and> children (last ?acts) = [] \<and>
      IsItemClicked ui (item_text (last ?acts))" if "?acts \<noteq> []"
    using activated_last [OF that] by (simp add: descendants_def)
  have 1: "selected_id (fst (Draw ui s)) = selected_id s \<or>
    (\<exists>it\<in>set (descendants (root s)).
       children it = [] \<and> IsItemClicked ui (item_text it) \<and>
       selected_id (fst (Draw ui s)) = item_id it)"
  proof (cases "?acts = []")
    case True
    then show ?thesis using d by simp
  next
    case False
    then have "selected_id (fst (Draw ui s)) = item_id (last ?acts)" using d by simp
    then show ?thesis using l [OF False] by blast
  qed
  have 2: "fst (Draw ui s) = s \<and> GetSelectedItemId (fst (Draw ui s)) = GetSelectedItemId s"
    if h: "\<forall>it\<in>set (descendants (root s)). IsItemClicked ui (item_text it) \<longrightarrow> children it \<noteq> []"
  proof -
    have "?acts = []"
    proof (rule ccontr)
      assume "?acts \<noteq> []"
      from l [OF this] h show False by blast
    qed
    then show ?thesis using d by simp
  qed
  show ?thesis using 1 2 by blast
qed

text \<open>
  A click on \<open>A\<close>, which has children, while \<open>C\<close> is selected.
\<close>

theorem nonleaf_click_keeps_selection_witness:
  "IsItemClicked (ui_click ''A##1'') ''A##1'' \<and>
   children (Item 1 1 ''A##1'' (Some 0)
        [Item 2 2 ''B##2'' (Some 1) [], Item 3 3 ''C##3'' (Some 1) []]) \<noteq> [] \<and>
   fst (Draw (ui_click ''A##1'') ex_listening) = ex_listening \<and>
   GetSelectedItemId (fst (Draw (ui_click ''A##1'') ex_listening)) = 3 \<and>
   GetSelectedItemId ex_listening = 3"
proof -
  have h: "\<forall>it\<in>set (descendants (root ex_listening)).
      IsItemClicked (ui_click ''A##1'') (item_text it) \<longrightarrow> children it \<noteq> []"
    by (simp add: descendants_def ex_defs eval_simps)
  have "GetSelectedItemId ex_listening = 3" by (simp add: ex_defs eval_simps)
  with nonleaf_click_keeps_selection [of "ui_click ''A##1''" ex_listening] h show ?thesis
    by (simp add: ui_click_def)
qed

text \<open>
  Claim C9. When \<open>AddItem\<close>, called with a text, returns the identifier \<open>i\<close>, the
  table resolves \<open>i\<close> to an item whose text is not the text given but the text
  given, then \<^verbatim>\<open>##\<close>, then \<open>i\<close> in decimal: what \<open>show_id\<close> prints for \<open>i\<close>, which
  reads as the number \<open>i\<close> in decimal notation (\<open>read_id\<close>), so that what follows
  the text given and \<^verbatim>\<open>##\<close> in the stored text denotes \<open>i\<close>. Whenever a pass on the new
  state calls the listener for \<open>i\<close>, this is the text it passes.
\<close>

theorem stored_text_has_id_suffix:
  assumes "store_ok g s" "AddItem g s parent_id txt = Inr (g', s', i)"
  shows "\<exists>a x. id2item s' i = Some a \<and> find_item a (root s') = Some x \<and> item_id x = i \<and>
           item_text x = txt @ ''##'' @ show_id i \<and> read_id (show_id i) = Some i \<and>
           take (length txt + 2) (item_text x) = txt @ ''##'' \<and>
           read_id (drop (length txt + 2) (item_text x)) = Some i \<and>
           item_text x \<noteq> txt \<and>
           (\<forall>ui l. Notify l i \<in> set (snd (snd (Draw ui s'))) \<longrightarrow> l = txt @ ''##'' @ show_id i)"
proof -
  let ?q = "parent_addr s parent_id"
  let ?it = "Item (heap_next g) (g_next_id g) (txt @ ''##'' @ show_id (g_next_id g)) (Some ?q) []"
  obtain C j t p cs where T: "root s = plug C (Item ?q j t p cs)"
    using AddItem_parent_found [OF assms(1), of parent_id] by (auto simp: parent_addr_def)
  have ok: "tree_ok (plug C (Item ?q j t p cs))" using assms(1) T by (simp add: store_ok_def)
  have q: "?q \<notin> snd ` set (frame_entries C)" using tree_ok_hole_addr [OF ok] by simp
  have mod: "modify_item ?q (\<lambda>cs. cs @ [new_item g s parent_id txt]) (root s) =
      plug C (Item ?q j t p (cs @ [?it]))"
    using modify_item_plug [OF q] T by (simp add: new_item_def)
  have res: "i = g_next_id g" "s' = s\<lparr>root := plug C (Item ?q j t p (cs @ [?it])),
      id2item := (id2item s)(g_next_id g \<mapsto> heap_next g)\<rparr>"
    using AddItem_result [OF assms(1), of parent_id "txt"] mod assms(2) by auto
  have T': "root s' = plug (C @ [Frame ?q j t p cs []]) ?it" using res by (simp add: plug_snoc)
  have ok': "tree_ok (root s')" using AddItem_structure [OF assms] by simp
  have found: "find_item (heap_next g) (root s') = Some ?it"
    using tree_ok_find_hole [of "C @ [Frame ?q j t p cs []]" ?it] ok' T' by simp
  have d: "distinct (map item_id (items (root s')))"
    using ok' by (simp add: tree_ok_def map_fst_entries)
  have it_in: "?it \<in> set (items (root s'))" using T' items_plug_hole by metis
  have listener: "l = txt @ ''##'' @ show_id i" if n: "Notify l i \<in> set (snd (snd (Draw ui s')))"
    for ui l
  proof -
    obtain sw ns tr where w: "DrawItems ui (children (root s')) (s', None, []) = (sw, ns, tr)"
      by (metis prod_cases3)
    let ?acts = "activated ui (children (root s'))"
    have "Notify l i \<notin> set tr"
    proof
      assume "Notify l i \<in> set tr"
      then have "Notify l i \<in> set (filter is_Notify tr)" by simp
      then show False using walk_result(1) [OF w] by simp
    qed
    with n have a: "?acts \<noteq> []" and e: "l = item_text (last ?acts)" "i = item_id (last ?acts)"
      using Draw_result [OF w] by (auto split: if_splits)
    have "last ?acts \<in> set (items (root s'))"
      using activated_last(1) [OF a] children_items [of "root s'"] by blast
    then have "last ?acts = ?it" using distinct_ids_eq [OF d _ it_in] e(2) res(1) by simp
    then show ?thesis using e(1) res(1) by simp
  qed
  show ?thesis
    apply (rule exI [of _ "heap_next g"], rule exI [of _ ?it])
    using res found listener read_show_id [of i] by simp
qed

text \<open>
  The text \<open>A\<close> for the item 7 is stored, and passed to the listener, as \<open>A##7\<close>. The
  text \<open>B\<close> for an item with the identifier \<open>- 2147483648\<close>, the first after the
  counter has passed the largest value of the type, is stored as
  \<open>B##-2147483648\<close>, and the item 1203 has the suffix \<open>1203\<close>. A string with a
  leading zero, or with a character that is no digit, is not the decimal notation
  of an identifier.
\<close>

theorem stored_text_has_id_suffix_witness:
  "store_ok \<lparr>g_next_id = 7, heap_next = 7\<rparr> (SetOnValueChanged ex_new True) \<and>
   AddItem \<lparr>g_next_id = 7, heap_next = 7\<rparr> (SetOnValueChanged ex_new True) 0 ''A'' =
     Inr (\<lparr>g_next_id = 8, heap_next = 8\<rparr>, ex_seven, 7) \<and>
   id2item ex_seven 7 = Some 7 \<and>
   find_item 7 (root ex_seven) = Some (Item 7 7 ''A##7'' (Some 0) []) \<and>
   snd (snd (Draw (ui_click ''A##7'') ex_seven)) = [TreeNode ''A##7'' True, Notify ''A##7'' 7] \<and>
   store_ok \<lparr>g_next_id = - 2147483648, heap_next = 1\<rparr> ex_new \<and>
   AddItem \<lparr>g_next_id = - 2147483648, heap_next = 1\<rparr> ex_new 0 ''B'' =
     Inr (\<lparr>g_next_id = - 2147483647, heap_next = 2\<rparr>,
          ex_new\<lparr>root := Item 0 0 [] None
                           [Item 1 (- 2147483648) ''B##-2147483648'' (Some 0) []],
                 id2item := [0 \<mapsto> 0, - 2147483648 \<mapsto> 1]\<rparr>,
          - 2147483648) \<and>
   read_id ''-2147483648'' = Some (- 2147483648) \<and>
   show_id 1203 = ''1203'' \<and> read_id ''1203'' = Some 1203 \<and> read_id ''7'' = Some 7 \<and>
   read_id ''007'' = None \<and> read_id ''-0'' = None \<and> read_id ''12a'' = None \<and>
   read_id [] = None"
proof -
  have w: "store_ok \<lparr>g_next_id = 7, heap_next = 7\<rparr> (SetOnValueChanged ex_new True)"
    "store_ok \<lparr>g_next_id = - 2147483648, heap_next = 1\<rparr> ex_new"
    by (simp_all add: store_ok_def tree_ok_def ex_new_def SetOnValueChanged_def as_unsigned_def)
  have a: "AddItem \<lparr>g_next_id = 7, heap_next = 7\<rparr> (SetOnValueChanged ex_new True) 0 ''A'' =
     Inr (\<lparr>g_next_id = 8, heap_next = 8\<rparr>, ex_seven, 7)"
    by (simp add: ex_defs eval_simps)
  have b: "AddItem \<lparr>g_next_id = - 2147483648, heap_next = 1\<rparr> ex_new 0 ''B'' =
     Inr (\<lparr>g_next_id = - 2147483647, heap_next = 2\<rparr>,
          ex_new\<lparr>root := Item 0 0 [] None
                           [Item 1 (- 2147483648) ''B##-2147483648'' (Some 0) []],
                 id2item := [0 \<mapsto> 0, - 2147483648 \<mapsto> 1]\<rparr>,
          - 2147483648)"
    by (simp add: ex_new_def AddItem_def Let_def show_id_def dec_nat.simps digit_def next_id_def)
  have d: "snd (snd (Draw (ui_click ''A##7'') ex_seven)) =
      [TreeNode ''A##7'' True, Notify ''A##7'' 7]"
    by (simp add: ex_defs ex_defs eval_simps)
  have p: "show_id 7 = ''7''" "show_id (- 2147483648) = ''-2147483648''"
    "show_id 1203 = ''1203''"
    by (simp_all add: show_id_def dec_nat.simps digit_def)
  have n: "read_id ''007'' = None" "read_id ''-0'' = None" "read_id ''12a'' = None"
    "read_id [] = None" "read_id ''1203'' = Some 1203"
    by (simp_all add: read_id_def is_decimal_def is_digit_def decimal_value_def digit_value_def)
  from stored_text_has_id_suffix [OF w(1) a] p(1)
  have 1: "id2item ex_seven 7 = Some 7 \<and>
      find_item 7 (root ex_seven) = Some (Item 7 7 ''A##7'' (Some 0) []) \<and>
      read_id ''7'' = Some 7"
    by (auto simp: ex_defs)
  from stored_text_has_id_suffix [OF w(2) b] p(2)
  have 2: "read_id ''-2147483648'' = Some (- 2147483648)" by auto
  show ?thesis using w a b d p n 1 2 by simp
qed

end
